theory Spec2Isabelle
  imports Complex_Main "HOL-Library.Log_Nat"
begin

section \<open>JavaScript numbers\<close>

text \<open>
  Every number of the source is a JavaScript Number, an IEEE 754 binary64 value. The
  model keeps NaN, +Infinity and -Infinity and takes a finite value as the real number it
  denotes. Every arithmetic operation returns the exact result rounded to binary64
  (\<open>rnd\<close>): to the nearest value with 53 significant bits, a tie to the one whose last
  bit is even, with the subnormal numbers down to \<open>2 ^ -1074\<close>, and to an infinity from
  \<open>2 ^ 1024\<close> on. The sign of zero is not modelled (a zero divisor is taken as +0).

  \<open>expo x\<close> is the binary exponent of \<open>x > 0\<close>, the \<open>e\<close> with
  \<open>2 ^ e \<le> x < 2 ^ (e + 1)\<close>; \<open>ulpExp x\<close> the exponent of the unit in the last place
  of the numbers around \<open>x\<close>; \<open>roundEven\<close> rounds to the nearest integer, a tie to the
  even one; \<open>nearest x\<close> is the nearest multiple of that unit. A decimal literal of the
  source denotes the rounded value of its decimal (\<open>lit\<close>).

  Comparisons with NaN are false, \<open>Math.max\<close> and \<open>Math.min\<close> return NaN as soon
  as one argument is NaN, and arithmetic follows IEEE 754 on the special values.
\<close>

datatype jsnum = NaN | NegInf | Num real | PosInf

definition expo :: "real \<Rightarrow> int" where
  "expo x = (if 1 \<le> x then bitlen \<lfloor>x\<rfloor> - 1 else - bitlen (\<lceil>1 / x\<rceil> - 1))"

definition ulpExp :: "real \<Rightarrow> int" where
  "ulpExp x = max (expo x - 52) (- 1074)"

definition roundEven :: "real \<Rightarrow> int" where
  "roundEven q =
     (let f = \<lfloor>q\<rfloor>
      in if q - of_int f < 1 / 2 then f
         else if 1 / 2 < q - of_int f then f + 1
         else if even f then f else f + 1)"

definition nearest :: "real \<Rightarrow> real" where
  "nearest x = of_int (roundEven (x / 2 powi ulpExp x)) * 2 powi ulpExp x"

definition rndPos :: "real \<Rightarrow> jsnum" where
  "rndPos x = (if 2 ^ 1024 \<le> nearest x then PosInf else Num (nearest x))"

fun jneg :: "jsnum \<Rightarrow> jsnum" where
  "jneg NaN = NaN"
| "jneg NegInf = PosInf"
| "jneg (Num a) = Num (- a)"
| "jneg PosInf = NegInf"

definition rnd :: "real \<Rightarrow> jsnum" where
  "rnd x = (if x = 0 then Num 0 else if 0 < x then rndPos x else jneg (rndPos (- x)))"

definition lit :: "real \<Rightarrow> jsnum" where
  "lit x = rnd x"

fun jadd :: "jsnum \<Rightarrow> jsnum \<Rightarrow> jsnum" where
  "jadd (Num a) (Num b) = rnd (a + b)"
| "jadd NaN _ = NaN"
| "jadd _ NaN = NaN"
| "jadd PosInf NegInf = NaN"
| "jadd NegInf PosInf = NaN"
| "jadd PosInf _ = PosInf"
| "jadd _ PosInf = PosInf"
| "jadd NegInf _ = NegInf"
| "jadd _ NegInf = NegInf"

definition jsub :: "jsnum \<Rightarrow> jsnum \<Rightarrow> jsnum" where
  "jsub a b = jadd a (jneg b)"

fun jmul :: "jsnum \<Rightarrow> jsnum \<Rightarrow> jsnum" where
  "jmul (Num a) (Num b) = rnd (a * b)"
| "jmul NaN _ = NaN"
| "jmul _ NaN = NaN"
| "jmul PosInf (Num b) = (if b = 0 then NaN else if 0 < b then PosInf else NegInf)"
| "jmul NegInf (Num b) = (if b = 0 then NaN else if 0 < b then NegInf else PosInf)"
| "jmul (Num a) PosInf = (if a = 0 then NaN else if 0 < a then PosInf else NegInf)"
| "jmul (Num a) NegInf = (if a = 0 then NaN else if 0 < a then NegInf else PosInf)"
| "jmul PosInf PosInf = PosInf"
| "jmul NegInf NegInf = PosInf"
| "jmul PosInf NegInf = NegInf"
| "jmul NegInf PosInf = NegInf"

fun jdiv :: "jsnum \<Rightarrow> jsnum \<Rightarrow> jsnum" where
  "jdiv (Num a) (Num b) =
     (if b \<noteq> 0 then rnd (a / b)
      else if a = 0 then NaN else if 0 < a then PosInf else NegInf)"
| "jdiv NaN _ = NaN"
| "jdiv _ NaN = NaN"
| "jdiv (Num a) PosInf = Num 0"
| "jdiv (Num a) NegInf = Num 0"
| "jdiv PosInf (Num b) = (if 0 \<le> b then PosInf else NegInf)"
| "jdiv NegInf (Num b) = (if 0 \<le> b then NegInf else PosInf)"
| "jdiv PosInf PosInf = NaN"
| "jdiv PosInf NegInf = NaN"
| "jdiv NegInf PosInf = NaN"
| "jdiv NegInf NegInf = NaN"

text \<open>\<open>Math.floor\<close>, \<open>Math.max\<close> and \<open>Math.min\<close>, which do not round.\<close>

fun jfloor :: "jsnum \<Rightarrow> jsnum" where
  "jfloor (Num a) = Num (of_int \<lfloor>a\<rfloor>)"
| "jfloor NaN = NaN"
| "jfloor NegInf = NegInf"
| "jfloor PosInf = PosInf"

fun jmax :: "jsnum \<Rightarrow> jsnum \<Rightarrow> jsnum" where
  "jmax (Num a) (Num b) = Num (max a b)"
| "jmax NaN _ = NaN"
| "jmax _ NaN = NaN"
| "jmax PosInf _ = PosInf"
| "jmax _ PosInf = PosInf"
| "jmax NegInf b = b"
| "jmax a NegInf = a"

fun jmin :: "jsnum \<Rightarrow> jsnum \<Rightarrow> jsnum" where
  "jmin (Num a) (Num b) = Num (min a b)"
| "jmin NaN _ = NaN"
| "jmin _ NaN = NaN"
| "jmin NegInf _ = NegInf"
| "jmin _ NegInf = NegInf"
| "jmin PosInf b = b"
| "jmin a PosInf = a"

text \<open>The comparisons \<open><\<close>, \<open>>\<close>, \<open><=\<close> and \<open>>=\<close>.\<close>

fun jlt :: "jsnum \<Rightarrow> jsnum \<Rightarrow> bool" where
  "jlt (Num a) (Num b) = (a < b)"
| "jlt NaN _ = False"
| "jlt _ NaN = False"
| "jlt _ NegInf = False"
| "jlt PosInf _ = False"
| "jlt NegInf _ = True"
| "jlt _ PosInf = True"

definition jgt :: "jsnum \<Rightarrow> jsnum \<Rightarrow> bool" where
  "jgt a b = jlt b a"

definition jle :: "jsnum \<Rightarrow> jsnum \<Rightarrow> bool" where
  "jle a b = (a \<noteq> NaN \<and> b \<noteq> NaN \<and> \<not> jlt b a)"

definition jge :: "jsnum \<Rightarrow> jsnum \<Rightarrow> bool" where
  "jge a b = jle b a"

section \<open>Detections and the post-processor (YOLOSimulation)\<close>

text \<open>
  A raw detection is what the external model returns: its \<open>bbox\<close> may be absent
  (\<open>None\<close>), and an array shorter than four entries reads \<open>undefined\<close>, which
  arithmetic turns into NaN. A detection is what \<open>formatDetection\<close> builds: its box is
  always an array of four numbers. The random \<open>id\<close> string of a formatted detection is
  read by no function of the model and is left out.
\<close>

record rawDetection =
  rawBbox :: "jsnum list option"
  rawClass :: string
  rawScore :: jsnum

type_synonym box = "jsnum \<times> jsnum \<times> jsnum \<times> jsnum"

record detection =
  className :: string
  score :: jsnum
  bbox :: box
  center :: "jsnum \<times> jsnum"

record frameData =
  frameWidth :: jsnum
  frameHeight :: jsnum
  frameCanvasWidth :: jsnum
  frameCanvasHeight :: jsnum

record yoloSimulation =
  isRunning :: bool
  isModelLoaded :: bool
  confidenceThreshold :: jsnum
  iouThreshold :: jsnum
  lastDetections :: "detection list"

datatype error = TypeError | InferenceError

text \<open>Reading \<open>bbox[i]\<close> as a number: an index past the end gives NaN.\<close>

definition elemAt :: "jsnum list \<Rightarrow> nat \<Rightarrow> jsnum" where
  "elemAt b i = (if i < length b then b ! i else NaN)"

text \<open>
  \<open>formatDetection\<close>: reading \<open>bbox[0]\<close> of an absent box raises a TypeError.
\<close>

definition formatDetection :: "rawDetection \<Rightarrow> frameData \<Rightarrow> error + detection" where
  "formatDetection d f =
     (case rawBbox d of
        None \<Rightarrow> Inl TypeError
      | Some b \<Rightarrow> Inr
          \<lparr> className = rawClass d,
            score = rawScore d,
            bbox =
              (jdiv (jmul (elemAt b 0) (frameWidth f)) (frameCanvasWidth f),
               jdiv (jmul (elemAt b 1) (frameHeight f)) (frameCanvasHeight f),
               jdiv (jmul (elemAt b 2) (frameWidth f)) (frameCanvasWidth f),
               jdiv (jmul (elemAt b 3) (frameHeight f)) (frameCanvasHeight f)),
            center =
              (jdiv (jmul (jadd (elemAt b 0) (jdiv (elemAt b 2) (Num 2))) (frameWidth f))
                 (frameCanvasWidth f),
               jdiv (jmul (jadd (elemAt b 1) (jdiv (elemAt b 3) (Num 2))) (frameHeight f))
                 (frameCanvasHeight f)) \<rparr>)"

text \<open>\<open>Array.prototype.map\<close> with a callback that may raise: the first error ends it.\<close>

fun formatAll :: "rawDetection list \<Rightarrow> frameData \<Rightarrow> error + detection list" where
  "formatAll [] f = Inr []"
| "formatAll (d # ds) f =
     (case formatDetection d f of
        Inl e \<Rightarrow> Inl e
      | Inr d' \<Rightarrow> (case formatAll ds f of Inl e \<Rightarrow> Inl e | Inr ds' \<Rightarrow> Inr (d' # ds')))"

text \<open>
  \<open>sort((a, b) => b.score - a.score)\<close>: the sort is stable, so it is an insertion
  sort that moves a detection behind another only when the comparator is positive.
  (With a NaN score the comparator is inconsistent and JavaScript leaves the order to
  the engine; the model then still returns a permutation.)
\<close>

fun insertByScore :: "detection \<Rightarrow> detection list \<Rightarrow> detection list" where
  "insertByScore d [] = [d]"
| "insertByScore d (e # es) =
     (if jgt (jsub (score e) (score d)) (Num 0) then e # insertByScore d es
      else d # e # es)"

definition sortByScore :: "detection list \<Rightarrow> detection list" where
  "sortByScore ds = foldr insertByScore ds []"

text \<open>\<open>calculateIoU(bbox1, bbox2)\<close>.\<close>

definition calculateIoU :: "box \<Rightarrow> box \<Rightarrow> jsnum" where
  "calculateIoU bbox1 bbox2 =
     (case bbox1 of (x1_1, y1_1, w1, h1) \<Rightarrow>
      case bbox2 of (x1_2, y1_2, w2, h2) \<Rightarrow>
        let x2_1 = jadd x1_1 w1;
            y2_1 = jadd y1_1 h1;
            x2_2 = jadd x1_2 w2;
            y2_2 = jadd y1_2 h2;
            intersectX1 = jmax x1_1 x1_2;
            intersectY1 = jmax y1_1 y1_2;
            intersectX2 = jmin x2_1 x2_2;
            intersectY2 = jmin y2_1 y2_2;
            intersectArea = jmul (jmax (Num 0) (jsub intersectX2 intersectX1))
                                 (jmax (Num 0) (jsub intersectY2 intersectY1));
            area1 = jmul w1 h1;
            area2 = jmul w2 h2;
            unionArea = jsub (jadd area1 area2) intersectArea
        in if jgt unionArea (Num 0) then jdiv intersectArea unionArea else Num 0)"

text \<open>
  \<open>applyNMS(detections)\<close>. The state of the loops is the list \<open>selected\<close> and the
  set \<open>suppressed\<close> of indices. \<open>suppressFrom\<close> is the inner loop over
  \<open>j = i + 1, ..., length - 1\<close>, \<open>nmsStep\<close> one round of the outer loop.
\<close>

definition suppressFrom :: "jsnum \<Rightarrow> detection list \<Rightarrow> nat \<Rightarrow> nat set \<Rightarrow> nat set" where
  "suppressFrom thr ds i suppressed =
     fold (\<lambda>j s.
            if j \<in> s then s
            else if jgt (calculateIoU (bbox (ds ! i)) (bbox (ds ! j))) thr then insert j s
            else s)
          [i + 1 ..< length ds] suppressed"

definition nmsStep ::
  "jsnum \<Rightarrow> detection list \<Rightarrow> nat \<Rightarrow> detection list \<times> nat set \<Rightarrow> detection list \<times> nat set" where
  "nmsStep thr ds i st =
     (case st of (selected, suppressed) \<Rightarrow>
        if i \<in> suppressed then (selected, suppressed)
        else (selected @ [ds ! i], suppressFrom thr ds i suppressed))"

definition nmsLoop :: "jsnum \<Rightarrow> detection list \<Rightarrow> detection list \<times> nat set" where
  "nmsLoop thr ds = fold (nmsStep thr ds) [0 ..< length ds] ([], {})"

definition applyNMS :: "yoloSimulation \<Rightarrow> detection list \<Rightarrow> detection list" where
  "applyNMS sim ds =
     (if length ds = 0 then [] else fst (nmsLoop (iouThreshold sim) ds))"

text \<open>The indices that \<open>applyNMS\<close> has in \<open>suppressed\<close> when it returns.\<close>

definition suppressedIndices :: "yoloSimulation \<Rightarrow> detection list \<Rightarrow> nat set" where
  "suppressedIndices sim ds = snd (nmsLoop (iouThreshold sim) ds)"

text \<open>\<open>postprocessDetections(rawDetections, frameData)\<close>.\<close>

definition postprocessDetections ::
  "yoloSimulation \<Rightarrow> rawDetection list \<Rightarrow> frameData \<Rightarrow> error + detection list" where
  "postprocessDetections sim rawDetections f =
     (case formatAll (filter (\<lambda>d. jge (rawScore d) (confidenceThreshold sim)) rawDetections) f of
        Inl e \<Rightarrow> Inl e
      | Inr formatted \<Rightarrow> Inr (applyNMS sim (sortByScore formatted)))"

section \<open>The grid (GridManager)\<close>

datatype cellState = Inactive | Active | Detecting | Detected | Confident

record cell =
  cellId :: nat
  row :: int
  col :: int
  cellX :: jsnum
  cellY :: jsnum
  cellW :: jsnum
  cellH :: jsnum
  state :: cellState
  confidence :: jsnum
  detection :: "detection option"
  lastUpdate :: int
  animationStartTime :: "int option"

text \<open>
  The fields of GridManager that its grid logic reads or writes. The rendering fields
  (\<open>ctx\<close>, \<open>isRunning\<close>, \<open>showConfidence\<close>, \<open>updateCount\<close>, ...) are left out.
\<close>

record grid =
  gridSize :: int
  canvasWidth :: jsnum
  canvasHeight :: jsnum
  cells :: "cell list"
  activeCells :: "nat set"
  detections :: "detection list"

text \<open>
  \<open>calculateCellPositions()\<close>. \<open>cell.col * cellWidth\<close> multiplies the integer column
  by the cell width.
\<close>

definition calculateCellPositions :: "grid \<Rightarrow> grid" where
  "calculateCellPositions g =
     (let cw = jdiv (canvasWidth g) (Num (of_int (gridSize g)));
          ch = jdiv (canvasHeight g) (Num (of_int (gridSize g)))
      in g\<lparr>cells :=
            map (\<lambda>c. c\<lparr>cellX := jmul (Num (of_int (col c))) cw,
                        cellY := jmul (Num (of_int (row c))) ch,
                        cellW := cw,
                        cellH := ch\<rparr>)
                (cells g)\<rparr>)"

text \<open>
  \<open>createGrid()\<close>. The loop runs for \<open>i < gridSize * gridSize\<close>, so it runs only
  when \<open>gridSize\<close> is not 0. \<open>Math.floor(i / gridSize)\<close> is the floored quotient;
  the remainder \<open>i % gridSize\<close> of JavaScript has the sign of \<open>i\<close>, which is not
  negative here.
\<close>

definition newCell :: "int \<Rightarrow> nat \<Rightarrow> cell" where
  "newCell n i =
     \<lparr> cellId = i,
       row = int i div n,
       col = int i mod \<bar>n\<bar>,
       cellX = Num 0, cellY = Num 0, cellW = Num 0, cellH = Num 0,
       state = Inactive,
       confidence = Num 0,
       detection = None,
       lastUpdate = 0,
       animationStartTime = None \<rparr>"

definition createGrid :: "grid \<Rightarrow> grid" where
  "createGrid g =
     calculateCellPositions
       (g\<lparr>cells := map (newCell (gridSize g)) [0 ..< nat (gridSize g * gridSize g)]\<rparr>)"

definition setGridSize :: "grid \<Rightarrow> int \<Rightarrow> grid" where
  "setGridSize g newSize = createGrid (g\<lparr>gridSize := newSize\<rparr>)"

text \<open>
  \<open>resize()\<close>. The argument is the rectangle that \<open>getBoundingClientRect\<close> reports
  (width, height), or \<open>None\<close> when there is no overlay canvas.
\<close>

definition resize :: "grid \<Rightarrow> (jsnum \<times> jsnum) option \<Rightarrow> grid" where
  "resize g rect =
     (case rect of
        None \<Rightarrow> g
      | Some (w, h) \<Rightarrow> calculateCellPositions (g\<lparr>canvasWidth := w, canvasHeight := h\<rparr>))"

text \<open>
  \<open>activateCell(cellId)\<close> and \<open>deactivateCell(cellId)\<close>; \<open>now\<close> is the value of
  \<open>Date.now()\<close>. An index outside the array reads \<open>undefined\<close> and the function
  returns at once.
\<close>

definition activateCell :: "grid \<Rightarrow> nat \<Rightarrow> int \<Rightarrow> grid" where
  "activateCell g i now =
     (if i < length (cells g)
      then g\<lparr>cells := (cells g)[i := (cells g ! i)\<lparr>state := Active, lastUpdate := now,
                                                   animationStartTime := Some now\<rparr>],
             activeCells := insert i (activeCells g)\<rparr>
      else g)"

definition deactivateCell :: "grid \<Rightarrow> nat \<Rightarrow> grid" where
  "deactivateCell g i =
     (if i < length (cells g)
      then g\<lparr>cells := (cells g)[i := (cells g ! i)\<lparr>state := Inactive, confidence := Num 0,
                                                   detection := None\<rparr>],
             activeCells := activeCells g - {i}\<rparr>
      else g)"


text \<open>
  \<open>getCellsInBoundingBox(x, y, width, height)\<close>. \<open>loopRange n s e\<close> lists the values
  of the loop variable of \<open>for (v = Math.max(0, s); v <= Math.min(n - 1, e); v++)\<close>.
  The lower bound is NaN, +Infinity or an integer that is not negative, the upper bound
  NaN, -Infinity or an integer below \<open>n\<close>; the loop condition is false at once unless
  both are integers, so the loop always ends.
\<close>

definition loopRange :: "int \<Rightarrow> jsnum \<Rightarrow> jsnum \<Rightarrow> int list" where
  "loopRange n s e =
     (case (jmax (Num 0) s, jmin (Num (of_int (n - 1))) e) of
        (Num a, Num b) \<Rightarrow> [\<lfloor>a\<rfloor> .. \<lfloor>b\<rfloor>]
      | _ \<Rightarrow> [])"

definition getCellsInBoundingBox :: "grid \<Rightarrow> jsnum \<Rightarrow> jsnum \<Rightarrow> jsnum \<Rightarrow> jsnum \<Rightarrow> nat list" where
  "getCellsInBoundingBox g bx by bw bh =
     (let n = Num (of_int (gridSize g));
          startCol = jfloor (jmul (jdiv bx (canvasWidth g)) n);
          endCol = jfloor (jmul (jdiv (jadd bx bw) (canvasWidth g)) n);
          startRow = jfloor (jmul (jdiv by (canvasHeight g)) n);
          endRow = jfloor (jmul (jdiv (jadd by bh) (canvasHeight g)) n)
      in concat
           (map (\<lambda>r. map (\<lambda>c. nat (r * gridSize g + c))
                         (loopRange (gridSize g) startCol endCol))
                (loopRange (gridSize g) startRow endRow)))"

text \<open>\<open>calculateIntersection(cell, bbox)\<close>.\<close>

definition calculateIntersection :: "cell \<Rightarrow> box \<Rightarrow> jsnum" where
  "calculateIntersection c b =
     (case b of (bx, by, bw, bh) \<Rightarrow>
        let left = jmax (cellX c) bx;
            top = jmax (cellY c) by;
            right = jmin (jadd (cellX c) (cellW c)) (jadd bx bw);
            bottom = jmin (jadd (cellY c) (cellH c)) (jadd by bh)
        in if jlt left right \<and> jlt top bottom
           then jmul (jsub right left) (jsub bottom top)
           else Num 0)"

text \<open>
  \<open>mapDetectionToGrid(detection)\<close>. \<open>adjustedConfidence\<close> is the value of the
  variable of that name for one cell, \<open>mapCell\<close> the body of the \<open>forEach\<close> over the
  affected cells.
\<close>

definition adjustedConfidence :: "cell \<Rightarrow> detection \<Rightarrow> jsnum" where
  "adjustedConfidence c d =
     (let intersection = calculateIntersection c (bbox d);
          intersectionRatio = jdiv intersection (jmul (cellW c) (cellH c))
      in jmul (score d) intersectionRatio)"

definition mapCell :: "detection \<Rightarrow> cell \<Rightarrow> cell" where
  "mapCell d c =
     (let a = adjustedConfidence c d
      in if jgt a (confidence c)
         then c\<lparr>confidence := a,
                detection := Some d,
                state := (if jgt a (lit (7 / 10)) then Confident
                          else if jgt a (lit (4 / 10)) then Detected
                          else if jgt a (lit (1 / 10)) then Detecting
                          else state c)\<rparr>
         else c)"

definition affectedCells :: "grid \<Rightarrow> detection \<Rightarrow> nat list" where
  "affectedCells g d =
     (case bbox d of (bx, by, bw, bh) \<Rightarrow> getCellsInBoundingBox g bx by bw bh)"

definition mapDetectionToGrid :: "grid \<Rightarrow> detection \<Rightarrow> grid" where
  "mapDetectionToGrid g d =
     g\<lparr>cells :=
         fold (\<lambda>i cs. if i < length cs then cs[i := mapCell d (cs ! i)] else cs)
              (affectedCells g d) (cells g)\<rparr>"

text \<open>\<open>updateDetections(detections)\<close>.\<close>

definition resetCell :: "cell \<Rightarrow> cell" where
  "resetCell c =
     (if state c \<noteq> Inactive
      then c\<lparr>state := Active, confidence := Num 0, detection := None\<rparr>
      else c)"

definition updateDetections :: "grid \<Rightarrow> detection list \<Rightarrow> grid" where
  "updateDetections g ds =
     fold (\<lambda>d g'. mapDetectionToGrid g' d) ds
          (g\<lparr>detections := ds, cells := map resetCell (cells g)\<rparr>)"

section \<open>One frame (YOLOSimulation.processFrame and its onDetection callback)\<close>

text \<open>
  \<open>processFrame(frameData)\<close>. \<open>inferred\<close> is the outcome of the external model
  (\<open>runInference\<close>). main.js binds \<open>onDetection\<close> to \<open>handleDetection\<close>, which
  passes the detections to \<open>updateDetections\<close> of the grid. An error raised inside the
  \<open>try\<close> block is caught: the frame is given up, and the function reports the error.
  \<open>simulateGridMapping\<close> only builds a list for \<open>onGridActivation\<close>, which is never
  bound, and changes no state.
\<close>

definition processFrame ::
  "yoloSimulation \<Rightarrow> grid \<Rightarrow> frameData \<Rightarrow> error + rawDetection list
     \<Rightarrow> yoloSimulation \<times> grid \<times> error option" where
  "processFrame sim g f inferred =
     (if \<not> isRunning sim \<or> \<not> isModelLoaded sim then (sim, g, None)
      else case inferred of
             Inl e \<Rightarrow> (sim, g, Some e)
           | Inr rawDetections \<Rightarrow>
               (case postprocessDetections sim rawDetections f of
                  Inl e \<Rightarrow> (sim, g, Some e)
                | Inr processed \<Rightarrow>
                    (sim\<lparr>lastDetections := processed\<rparr>, updateDetections g processed, None)))"

section \<open>Construction and activation of a grid\<close>

text \<open>
  The constructor of GridManager: \<open>options.gridSize || 13\<close>, a canvas of size 0 until
  \<open>setupCanvas\<close> calls \<open>resize\<close> (when there is an overlay canvas), then
  \<open>createGrid\<close>.
\<close>

definition gridManager :: "int \<Rightarrow> (jsnum \<times> jsnum) option \<Rightarrow> grid" where
  "gridManager n rect =
     createGrid
       (resize \<lparr> gridSize = (if n = 0 then 13 else n),
                 canvasWidth = Num 0, canvasHeight = Num 0,
                 cells = [], activeCells = {}, detections = [] \<rparr> rect)"

text \<open>Calls of \<open>activateCell\<close> for a list of cell ids, as the timer and the clicks make them.\<close>

definition activateCells :: "grid \<Rightarrow> nat list \<Rightarrow> int \<Rightarrow> grid" where
  "activateCells g ks now = fold (\<lambda>i g'. activateCell g' i now) ks g"

section \<open>Notions of the statements\<close>

text \<open>
  A valid box has finite coordinates and a positive width and height. (For a box of
  area 0 the guard \<open>unionArea > 0\<close> of \<open>calculateIoU\<close> returns 0.)
\<close>

definition validBox :: "box \<Rightarrow> bool" where
  "validBox b = (case b of (Num bx, Num by, Num bw, Num bh) \<Rightarrow> 0 < bw \<and> 0 < bh | _ \<Rightarrow> False)"

text \<open>
  Integer geometry, where the arithmetic of the code is exact: a box whose four numbers
  are integers, with a corner within \<open>2 ^ 25\<close> of the origin and a width and height
  from 0 to \<open>2 ^ 25\<close>, and a cell whose rectangle is such a box with a corner that is
  not negative.
\<close>

definition isInt :: "real \<Rightarrow> bool" where
  "isInt r = (of_int \<lfloor>r\<rfloor> = r)"

definition integerBox :: "box \<Rightarrow> bool" where
  "integerBox b =
     (case b of
        (Num bx, Num by, Num bw, Num bh) \<Rightarrow>
          isInt bx \<and> isInt by \<and> isInt bw \<and> isInt bh \<and>
          \<bar>bx\<bar> \<le> 2 ^ 25 \<and> \<bar>by\<bar> \<le> 2 ^ 25 \<and>
          0 \<le> bw \<and> bw \<le> 2 ^ 25 \<and> 0 \<le> bh \<and> bh \<le> 2 ^ 25
      | _ \<Rightarrow> False)"


text \<open>\<open>overlaps thr ds i j\<close>: the test \<open>iou > this.iouThreshold\<close> of \<open>applyNMS\<close>.\<close>

definition overlaps :: "jsnum \<Rightarrow> detection list \<Rightarrow> nat \<Rightarrow> nat \<Rightarrow> bool" where
  "overlaps thr ds i j = jgt (calculateIoU (bbox (ds ! i)) (bbox (ds ! j))) thr"

text \<open>
  What \<open>updateDetections\<close> does to the cell at index \<open>k\<close>: \<open>cellStep\<close> is the
  effect of one \<open>mapDetectionToGrid\<close>, \<open>cellRun\<close> that of the whole \<open>forEach\<close>.
  \<open>unmapped\<close> forgets the three fields that the mapping writes.
\<close>

definition unmapped :: "cell \<Rightarrow> cell" where
  "unmapped c = c\<lparr>state := Inactive, confidence := Num 0, detection := None\<rparr>"

definition cellStep :: "grid \<Rightarrow> nat \<Rightarrow> detection \<Rightarrow> cell \<Rightarrow> cell" where
  "cellStep g k d c = (if k \<in> set (affectedCells g d) then mapCell d c else c)"

definition cellRun :: "grid \<Rightarrow> nat \<Rightarrow> detection list \<Rightarrow> cell \<Rightarrow> cell" where
  "cellRun g k ds c = fold (cellStep g k) ds c"

text \<open>
  \<open>greatestOf v A\<close>: \<open>v\<close> is a member of \<open>A\<close> that no member exceeds (the maximum,
  when the members are finite numbers). \<open>startConfidence\<close> is the confidence of a cell
  after the reset step of \<open>updateDetections\<close>.
\<close>

definition greatestOf :: "jsnum \<Rightarrow> jsnum set \<Rightarrow> bool" where
  "greatestOf v A = (v \<in> A \<and> (\<forall>a \<in> A. \<not> jgt a v))"

definition startConfidence :: "cell \<Rightarrow> jsnum" where
  "startConfidence c = (if state c = Inactive then confidence c else Num 0)"

text \<open>
  The area of a cell as the code computes it, the points of its rectangle (left and top
  edge included, right and bottom edge excluded; the right and the bottom edge are
  \<open>cell.x + cell.width\<close> and \<open>cell.y + cell.height\<close> as the code computes them), and
  the cell that \<open>createGrid\<close> builds at index \<open>k\<close> of an \<open>n\<close> by \<open>n\<close> grid on a
  canvas of width \<open>w\<close> and height \<open>h\<close>.
\<close>

definition cellArea :: "cell \<Rightarrow> jsnum" where
  "cellArea c = jmul (cellW c) (cellH c)"

definition inCell :: "cell \<Rightarrow> real \<Rightarrow> real \<Rightarrow> bool" where
  "inCell c px py =
     (jle (cellX c) (Num px) \<and> jlt (Num px) (jadd (cellX c) (cellW c)) \<and>
      jle (cellY c) (Num py) \<and> jlt (Num py) (jadd (cellY c) (cellH c)))"

definition freshCell :: "int \<Rightarrow> jsnum \<Rightarrow> jsnum \<Rightarrow> nat \<Rightarrow> cell" where
  "freshCell n w h k =
     \<lparr> cellId = k,
       row = int k div n,
       col = int k mod n,
       cellX = jmul (Num (of_int (int k mod n))) (jdiv w (Num (of_int n))),
       cellY = jmul (Num (of_int (int k div n))) (jdiv h (Num (of_int n))),
       cellW = jdiv w (Num (of_int n)),
       cellH = jdiv h (Num (of_int n)),
       state = Inactive,
       confidence = Num 0,
       detection = None,
       lastUpdate = 0,
       animationStartTime = None \<rparr>"

text \<open>
  Example inputs, written with the decimals of JavaScript source: a detection of class
  person with a score and a box, the simulation with its default thresholds, the 3 by 3
  grid and the 7 by 7 grid on a canvas of 300 by 300.
\<close>

definition person :: "real \<Rightarrow> real \<Rightarrow> real \<Rightarrow> real \<Rightarrow> real \<Rightarrow> detection" where
  "person s bx by bw bh =
     \<lparr> className = ''person'', score = lit s, bbox = (lit bx, lit by, lit bw, lit bh),
       center = (jadd (lit bx) (jdiv (lit bw) (Num 2)), jadd (lit by) (jdiv (lit bh) (Num 2))) \<rparr>"

definition defaultSimulation :: yoloSimulation where
  "defaultSimulation =
     \<lparr> isRunning = True, isModelLoaded = True, confidenceThreshold = lit (3 / 10),
       iouThreshold = lit (1 / 2), lastDetections = [] \<rparr>"

definition grid3 :: grid where
  "grid3 = gridManager 3 (Some (Num 300, Num 300))"

definition grid7 :: grid where
  "grid7 = gridManager 7 (Some (Num 300, Num 300))"

text \<open>
  \<open>inUnit\<close> is the interval from 0 to 1. A well-formed detection has a score from 0
  to 1 and a finite box whose width and height are not negative.
\<close>

definition inUnit :: "jsnum \<Rightarrow> bool" where
  "inUnit v = (case v of Num r \<Rightarrow> 0 \<le> r \<and> r \<le> 1 | _ \<Rightarrow> False)"





text \<open>
  A box with a NaN among its four numbers, and example inputs of a frame: a raw
  detection of class person whose box may be missing, and a frame of 300 by 300 drawn
  on a canvas of 300 by 300.
\<close>

definition hasNaN :: "box \<Rightarrow> bool" where
  "hasNaN b = (case b of (bx, by, bw, bh) \<Rightarrow> bx = NaN \<or> by = NaN \<or> bw = NaN \<or> bh = NaN)"

definition rawPerson :: "real \<Rightarrow> jsnum list option \<Rightarrow> rawDetection" where
  "rawPerson s b = \<lparr> rawBbox = b, rawClass = ''person'', rawScore = lit s \<rparr>"

definition frame300 :: frameData where
  "frame300 = \<lparr> frameWidth = Num 300, frameHeight = Num 300,
                frameCanvasWidth = Num 300, frameCanvasHeight = Num 300 \<rparr>"

section \<open>Rounding to binary64\<close>

lemma expo_bounds:
  assumes "0 < x"
  shows "2 powi expo x \<le> x" "x < 2 powi (expo x + 1)"
proof -
  have "2 powi expo x \<le> x \<and> x < 2 powi (expo x + 1)"
  proof (cases "1 \<le> x")
    case True
    define n where "n = \<lfloor>x\<rfloor>"
    have n: "0 < n" using True by (simp add: n_def)
    have e: "expo x = bitlen n - 1" using True by (simp add: expo_def n_def)
    have b1: "1 \<le> bitlen n" using n by (simp add: bitlen_alt_def)
    from bitlen_bounds[OF n] have lo: "2 ^ nat (bitlen n - 1) \<le> n" and hi: "n < 2 ^ nat (bitlen n)"
      by simp_all
    have "(2::real) powi (bitlen n - 1) = 2 ^ nat (bitlen n - 1)"
      using b1 by (simp add: power_int_def)
    also have "\<dots> = of_int (2 ^ nat (bitlen n - 1))" by simp
    also have "\<dots> \<le> of_int n" using lo by (simp only: of_int_le_iff)
    also have "\<dots> \<le> x" by (simp add: n_def)
    finally have 1: "2 powi expo x \<le> x" unfolding e .
    have "n + 1 \<le> 2 ^ nat (bitlen n)" using hi by simp
    then have "of_int (n + 1) \<le> (of_int (2 ^ nat (bitlen n)) :: real)" by (simp only: of_int_le_iff)
    moreover have "x < of_int (n + 1)" by (simp add: n_def)
    ultimately have "x < 2 ^ nat (bitlen n)" by simp
    also have "(2::real) ^ nat (bitlen n) = 2 powi (bitlen n)"
      using b1 by (simp add: power_int_def)
    finally have 2: "x < 2 powi (expo x + 1)" unfolding e by simp
    from 1 2 show ?thesis by simp
  next
    case False
    define y where "y = 1 / x"
    have y: "1 < y" using False assms by (simp add: y_def)
    define n where "n = \<lceil>y\<rceil> - 1"
    have "2 \<le> \<lceil>y\<rceil>" using y by (simp add: le_ceiling_iff)
    then have n: "0 < n" by (simp add: n_def)
    have e: "expo x = - bitlen n" using False by (simp add: expo_def n_def y_def)
    have b1: "1 \<le> bitlen n" using n by (simp add: bitlen_alt_def)
    from bitlen_bounds[OF n] have lo: "2 ^ nat (bitlen n - 1) \<le> n" and hi: "n < 2 ^ nat (bitlen n)"
      by simp_all
    have ny: "of_int n < y" "y \<le> of_int n + 1"
      unfolding n_def by (simp_all add: ceiling_correct)
    have "n + 1 \<le> 2 ^ nat (bitlen n)" using hi by simp
    then have "of_int (n + 1) \<le> (of_int (2 ^ nat (bitlen n)) :: real)" by (simp only: of_int_le_iff)
    with ny have "y \<le> 2 ^ nat (bitlen n)" by simp
    also have "(2::real) ^ nat (bitlen n) = 2 powi (bitlen n)"
      using b1 by (simp add: power_int_def)
    finally have "1 / x \<le> 2 powi bitlen n" unfolding y_def .
    then have "1 \<le> 2 powi bitlen n * x" using assms by (simp add: pos_divide_le_eq)
    then have "1 / 2 powi bitlen n \<le> x" by (simp add: pos_divide_le_eq mult.commute)
    then have 1: "2 powi expo x \<le> x" unfolding e by (simp add: power_int_minus_divide)
    have "(of_int (2 ^ nat (bitlen n - 1)) :: real) \<le> of_int n" using lo by (simp only: of_int_le_iff)
    then have "(2::real) ^ nat (bitlen n - 1) \<le> of_int n" by simp
    with ny have "2 ^ nat (bitlen n - 1) < y" by linarith
    also have "(2::real) ^ nat (bitlen n - 1) = 2 powi (bitlen n - 1)"
      using b1 by (simp add: power_int_def)
    finally have "2 powi (bitlen n - 1) < 1 / x" unfolding y_def .
    then have "2 powi (bitlen n - 1) * x < 1" using assms by (simp add: pos_less_divide_eq)
    then have "x < 1 / 2 powi (bitlen n - 1)" by (simp add: pos_less_divide_eq mult.commute)
    also have "1 / (2::real) powi (bitlen n - 1) = 2 powi (- (bitlen n - 1))"
      by (rule power_int_minus_divide[symmetric])
    finally have 2: "x < 2 powi (expo x + 1)" unfolding e by simp
    from 1 2 show ?thesis by simp
  qed
  then show "2 powi expo x \<le> x" "x < 2 powi (expo x + 1)" by simp_all
qed

lemma pow2_less_exp:
  fixes a b :: int
  assumes "(2::real) powi a < 2 powi b" shows "a < b"
proof (rule ccontr)
  assume "\<not> a < b"
  then have "b \<le> a" by simp
  then have "(2::real) powi b \<le> 2 powi a" by (intro power_int_increasing) simp_all
  with assms show False by simp
qed

lemma expo_unique:
  assumes "2 powi e \<le> x" "x < 2 powi (e + 1)"
  shows "expo x = e"
proof -
  have x: "0 < x" using assms(1) by (rule less_le_trans[rotated]) simp
  from expo_bounds[OF x] assms
  have a: "(2::real) powi expo x < 2 powi (e + 1)" and b: "(2::real) powi e < 2 powi (expo x + 1)"
    by linarith+
  from a have "expo x < e + 1" by (rule pow2_less_exp)
  moreover from b have "e < expo x + 1" by (rule pow2_less_exp)
  ultimately show ?thesis by simp
qed

lemma expo_mono:
  assumes "0 < x" "x \<le> y"
  shows "expo x \<le> expo y"
proof -
  have y: "0 < y" using assms by simp
  from expo_bounds(1)[OF assms(1)] expo_bounds(2)[OF y] assms(2)
  have "(2::real) powi expo x < 2 powi (expo y + 1)" by linarith
  then have "expo x < expo y + 1" by (rule pow2_less_exp)
  then show ?thesis by simp
qed

lemma roundEven_of_int [simp]: "roundEven (of_int n) = n"
  by (simp add: roundEven_def)

lemma roundEven_near: "\<bar>q - of_int (roundEven q)\<bar> \<le> 1 / 2"
  unfolding roundEven_def Let_def by (auto simp: abs_le_iff)

lemma roundEven_eqI:
  assumes "\<bar>q - of_int m\<bar> < 1 / 2"
  shows "roundEven q = m"
proof -
  from assms roundEven_near[of q] have "\<bar>(of_int (roundEven q) :: real) - of_int m\<bar> < 1"
    by linarith
  then have "\<bar>of_int (roundEven q - m) :: real\<bar> < 1" by simp
  then have "\<bar>roundEven q - m\<bar> < 1" by (metis of_int_abs of_int_less_1_iff)
  then show ?thesis by simp
qed

lemma roundEven_mono:
  assumes "q \<le> q'"
  shows "roundEven q \<le> roundEven q'"
proof (cases "\<lfloor>q\<rfloor> = \<lfloor>q'\<rfloor>")
  case True
  then show ?thesis using assms unfolding roundEven_def Let_def by auto
next
  case False
  with assms have lt: "\<lfloor>q\<rfloor> < \<lfloor>q'\<rfloor>" using floor_mono[OF assms] by simp
  have "roundEven q \<le> \<lfloor>q\<rfloor> + 1" unfolding roundEven_def Let_def by auto
  also have "\<dots> \<le> \<lfloor>q'\<rfloor>" using lt by simp
  also have "\<dots> \<le> roundEven q'" unfolding roundEven_def Let_def by auto
  finally show ?thesis .
qed


lemma pow2_split: "(2::real) powi (a + b) = 2 powi a * 2 powi b"
  by (rule power_int_add) simp

lemma pow2_pos [simp]: "0 < (2::real) powi a"
  by simp

lemma nearest_nonneg: "0 \<le> x \<Longrightarrow> 0 \<le> nearest x"
proof -
  assume x: "0 \<le> x"
  have "0 \<le> x / 2 powi ulpExp x" using x by simp
  then have "roundEven 0 \<le> roundEven (x / 2 powi ulpExp x)" by (rule roundEven_mono)
  then have "0 \<le> roundEven (x / 2 powi ulpExp x)" using roundEven_of_int[of 0] by simp
  then show ?thesis unfolding nearest_def by simp
qed

lemma nearest_upper:
  assumes "0 < x"
  shows "nearest x \<le> 2 powi (ulpExp x + 53)"
proof -
  have "expo x + 1 \<le> ulpExp x + 53" by (simp add: ulpExp_def)
  then have "(2::real) powi (expo x + 1) \<le> 2 powi (ulpExp x + 53)"
    by (intro power_int_increasing) simp_all
  with expo_bounds(2)[OF assms] have "x \<le> 2 powi (ulpExp x + 53)" by simp
  then have "x / 2 powi ulpExp x \<le> 2 powi (ulpExp x + 53) / 2 powi ulpExp x"
    by (intro divide_right_mono) simp_all
  also have "\<dots> = 2 ^ 53" by (simp add: pow2_split)
  also have "\<dots> = of_int (2 ^ 53)" by simp
  finally have "roundEven (x / 2 powi ulpExp x) \<le> roundEven (of_int (2 ^ 53))"
    by (rule roundEven_mono)
  then have "roundEven (x / 2 powi ulpExp x) \<le> 2 ^ 53" by (simp only: roundEven_of_int)
  then have "(of_int (roundEven (x / 2 powi ulpExp x)) :: real) \<le> of_int (2 ^ 53)"
    by (simp only: of_int_le_iff)
  then have "nearest x \<le> of_int (2 ^ 53) * 2 powi ulpExp x"
    unfolding nearest_def by (intro mult_right_mono) simp_all
  also have "\<dots> = 2 powi (ulpExp x + 53)" by (simp add: pow2_split)
  finally show ?thesis .
qed

lemma nearest_lower:
  assumes "0 < y" "ulpExp y = expo y - 52"
  shows "2 powi (ulpExp y + 52) \<le> nearest y"
proof -
  have "2 powi expo y / 2 powi ulpExp y \<le> y / 2 powi ulpExp y"
    using expo_bounds(1)[OF assms(1)] by (intro divide_right_mono) simp_all
  moreover have "(2::real) powi expo y = 2 powi ulpExp y * 2 powi 52"
    unfolding assms(2) pow2_split[symmetric] by simp
  ultimately have "of_int (2 ^ 52) \<le> y / 2 powi ulpExp y" by simp
  then have "roundEven (of_int (2 ^ 52)) \<le> roundEven (y / 2 powi ulpExp y)"
    by (rule roundEven_mono)
  then have "2 ^ 52 \<le> roundEven (y / 2 powi ulpExp y)" by (simp only: roundEven_of_int)
  then have "(of_int (2 ^ 52) :: real) \<le> of_int (roundEven (y / 2 powi ulpExp y))"
    by (simp only: of_int_le_iff)
  then have "of_int (2 ^ 52) * 2 powi ulpExp y \<le> nearest y"
    unfolding nearest_def by (intro mult_right_mono) simp_all
  moreover have "of_int (2 ^ 52) * (2::real) powi ulpExp y = 2 powi (ulpExp y + 52)"
    by (simp add: pow2_split)
  ultimately show ?thesis by simp
qed

lemma nearest_mono:
  assumes "0 < x" "x \<le> y"
  shows "nearest x \<le> nearest y"
proof -
  have y: "0 < y" using assms by simp
  have le: "ulpExp x \<le> ulpExp y"
    using expo_mono[OF assms] unfolding ulpExp_def by auto
  show ?thesis
  proof (cases "ulpExp x = ulpExp y")
    case True
    have "x / 2 powi ulpExp y \<le> y / 2 powi ulpExp y"
      using assms(2) by (intro divide_right_mono) simp_all
    then have "roundEven (x / 2 powi ulpExp y) \<le> roundEven (y / 2 powi ulpExp y)"
      by (rule roundEven_mono)
    then have "(of_int (roundEven (x / 2 powi ulpExp y)) :: real) \<le>
               of_int (roundEven (y / 2 powi ulpExp y))"
      by (simp only: of_int_le_iff)
    then show ?thesis unfolding nearest_def True by (intro mult_right_mono) simp_all
  next
    case False
    with le have lt: "ulpExp x + 53 \<le> ulpExp y + 52" by simp
    have "- 1074 \<le> ulpExp x" by (simp add: ulpExp_def)
    with False le have ey: "ulpExp y = expo y - 52" unfolding ulpExp_def by auto
    have "nearest x \<le> 2 powi (ulpExp x + 53)" using assms(1) by (rule nearest_upper)
    also have "\<dots> \<le> 2 powi (ulpExp y + 52)" using lt by (intro power_int_increasing) simp_all
    also have "\<dots> \<le> nearest y" using y ey by (rule nearest_lower)
    finally show ?thesis .
  qed
qed

lemma nearest_exact:
  assumes m: "0 < m" "m < 2 ^ 53" and k: "- 1074 \<le> k"
  shows "nearest (of_int m * 2 powi k) = of_int m * 2 powi k"
proof -
  define x :: real where "x = of_int m * 2 powi k"
  define u where "u = ulpExp x"
  have x: "0 < x" using m by (simp add: x_def)
  have "(of_int m :: real) < of_int (2 ^ 53)" using m(2) by (simp only: of_int_less_iff)
  then have "x < 2 ^ 53 * 2 powi k" unfolding x_def by simp
  also have "\<dots> = 2 powi (53 + k)" by (simp add: pow2_split)
  finally have "(2::real) powi expo x < 2 powi (53 + k)"
    using expo_bounds(1)[OF x] by simp
  then have "expo x < 53 + k" by (rule pow2_less_exp)
  then have e: "u \<le> k" using k by (simp add: ulpExp_def u_def)
  define j where "j = nat (k - u)"
  have kj: "k = u + int j" using e by (simp add: j_def)
  have p: "(2::real) powi k = 2 powi u * 2 ^ j"
    by (subst kj) (simp add: pow2_split)
  have xe: "x = of_int (m * 2 ^ j) * 2 powi u"
    unfolding x_def p by simp
  then have "x / 2 powi u = of_int (m * 2 ^ j)" by simp
  then have "roundEven (x / 2 powi u) = m * 2 ^ j" by (simp only: roundEven_of_int)
  then have "nearest x = of_int (m * 2 ^ j) * 2 powi u" by (simp add: nearest_def u_def)
  also have "\<dots> = x" by (rule xe[symmetric])
  finally show ?thesis unfolding x_def .
qed

lemma rndPos_cases: "0 \<le> x \<Longrightarrow> rndPos x = PosInf \<or> (\<exists>r. rndPos x = Num r \<and> 0 \<le> r)"
  using nearest_nonneg[of x] by (auto simp: rndPos_def)

lemma rndPos_mono:
  assumes "0 < x" "x \<le> y"
  shows "jle (rndPos x) (rndPos y)"
  using nearest_mono[OF assms] by (auto simp: rndPos_def jle_def)

lemma jle_jneg: "jle a b \<Longrightarrow> jle (jneg b) (jneg a)"
  by (cases a; cases b) (auto simp: jle_def)

lemma rnd_cases_nonneg: "0 \<le> x \<Longrightarrow> rnd x = PosInf \<or> (\<exists>r. rnd x = Num r \<and> 0 \<le> r)"
  using rndPos_cases[of x] by (auto simp: rnd_def)

lemma rnd_cases_nonpos: "x \<le> 0 \<Longrightarrow> rnd x = NegInf \<or> (\<exists>r. rnd x = Num r \<and> r \<le> 0)"
  using rndPos_cases[of "- x"] by (auto simp: rnd_def)

lemma rnd_not_NaN [simp]: "rnd x \<noteq> NaN"
  using rnd_cases_nonneg[of x] rnd_cases_nonpos[of x] by (cases "0 \<le> x") auto

lemma rnd_minus: "rnd (- x) = jneg (rnd x)"
proof -
  have "jneg (jneg a) = a" for a by (cases a) auto
  then show ?thesis by (auto simp: rnd_def)
qed

lemma rnd_mono:
  assumes "x \<le> y"
  shows "jle (rnd x) (rnd y)"
proof -
  consider "0 < x" | "x \<le> 0" "0 \<le> y" | "y < 0" using assms by linarith
  then show ?thesis
  proof cases
    case 1
    then show ?thesis using rndPos_mono[OF 1 assms] assms by (simp add: rnd_def)
  next
    case 2
    from rnd_cases_nonpos[OF 2(1)] rnd_cases_nonneg[OF 2(2)] show ?thesis
      by (auto simp: jle_def)
  next
    case 3
    then have "0 < - y" "- y \<le> - x" using assms by simp_all
    from jle_jneg[OF rndPos_mono[OF this]] show ?thesis using 3 assms by (simp add: rnd_def)
  qed
qed

lemma rnd_exact:
  assumes "\<bar>m\<bar> < 2 ^ 53" "- 1074 \<le> k" "\<bar>of_int m * 2 powi k\<bar> < (2::real) ^ 1024"
  shows "rnd (of_int m * 2 powi k) = Num (of_int m * 2 powi k)"
proof -
  consider "m = 0" | "0 < m" | "m < 0" by linarith
  then show ?thesis
  proof cases
    case 1
    then show ?thesis by (simp add: rnd_def)
  next
    case 2
    then have "m < 2 ^ 53" using assms(1) by simp
    from nearest_exact[OF 2 this assms(2)] assms(3) 2 show ?thesis
      by (simp add: rnd_def rndPos_def abs_mult)
  next
    case 3
    then have p: "0 < - m" "- m < 2 ^ 53" using assms(1) by simp_all
    have "nearest (- (of_int m * 2 powi k)) = - (of_int m * 2 powi k)"
      using nearest_exact[OF p assms(2)] by simp
    moreover have "of_int m * (2::real) powi k < 0" using 3 by (simp add: mult_less_0_iff)
    ultimately show ?thesis using assms(3) by (simp add: rnd_def rndPos_def)
  qed
qed

lemma rnd_int:
  assumes "\<bar>n\<bar> < 2 ^ 53"
  shows "rnd (of_int n) = Num (of_int n)"
proof -
  have "\<bar>of_int n :: real\<bar> < of_int (2 ^ 53)"
    using assms by (simp only: of_int_abs[symmetric] of_int_less_iff)
  then have "\<bar>of_int n * 2 powi 0\<bar> < (2::real) ^ 1024" by simp
  from rnd_exact[OF assms _ this] show ?thesis by simp
qed

lemma rnd_Ints:
  assumes "x \<in> \<int>" "\<bar>x\<bar> < 2 ^ 53"
  shows "rnd x = Num x"
proof -
  from assms(1) obtain n where x: "x = of_int n" by (auto elim: Ints_cases)
  have "\<bar>of_int n :: real\<bar> < of_int (2 ^ 53)" using assms(2) unfolding x by simp
  then have "\<bar>n\<bar> < 2 ^ 53" by (simp only: of_int_abs[symmetric] of_int_less_iff)
  then show ?thesis unfolding x by (rule rnd_int)
qed

text \<open>
  The rounding of a concrete number \<open>x\<close>: with \<open>2 ^ 52 \<le> x * 2 ^ k < 2 ^ 53\<close> the unit
  in the last place is \<open>2 ^ -k\<close>, and \<open>x * 2 ^ k\<close> is rounded to an integer.
\<close>

lemma rnd_eval_gen:
  fixes x :: real and k :: nat
  assumes "2 ^ 52 \<le> x * 2 ^ k" "x * 2 ^ k < 2 ^ 53" "k \<le> 1074"
    and r: "roundEven (x * 2 ^ k) = m"
  shows "rnd x = Num (of_int m / 2 ^ k)"
proof -
  have "0 < x * 2 ^ k" using assms(1) by (rule less_le_trans[rotated]) simp
  then have x: "0 < x" by (simp add: zero_less_mult_iff)
  have p: "(2::real) powi (- int k) = 1 / 2 ^ k" by (simp add: power_int_minus_divide)
  have "(2::real) powi (52 - int k) = 2 ^ 52 * 2 powi (- int k)"
    using pow2_split[of 52 "- int k"] by simp
  also have "\<dots> \<le> x" using assms(1) unfolding p by (simp add: field_simps)
  finally have lo: "2 powi (52 - int k) \<le> x" .
  have "x < 2 ^ 53 * 2 powi (- int k)" using assms(2) unfolding p by (simp add: field_simps)
  also have "\<dots> = 2 powi (52 - int k + 1)" using pow2_split[of 53 "- int k"] by simp
  finally have "expo x = 52 - int k" using lo by (intro expo_unique)
  then have u: "ulpExp x = - int k" using assms(3) by (simp add: ulpExp_def)
  have n: "nearest x = of_int m / 2 ^ k" using r by (simp add: nearest_def u p)
  have "x * 2 ^ k \<le> of_int (2 ^ 53)" using assms(2) by simp
  then have "roundEven (x * 2 ^ k) \<le> roundEven (of_int (2 ^ 53))" by (rule roundEven_mono)
  then have "m \<le> 2 ^ 53" using r by (simp only: roundEven_of_int)
  then have "(of_int m :: real) \<le> of_int (2 ^ 53)" by (simp only: of_int_le_iff)
  then have "of_int m \<le> (2 ^ 53 :: real)" by simp
  then have "of_int m / 2 ^ k \<le> (2 ^ 53 :: real) / 1"
    by (intro frac_le) simp_all
  then have "of_int m / 2 ^ k < (2 ^ 1024 :: real)" by simp
  then show ?thesis using x n by (simp add: rnd_def rndPos_def)
qed

lemma rnd_eval:
  fixes x :: real and k :: nat
  assumes "2 ^ 52 \<le> x * 2 ^ k" "x * 2 ^ k < 2 ^ 53" "k \<le> 1074"
    and "\<bar>x * 2 ^ k - of_int m\<bar> < 1 / 2"
  shows "rnd x = Num (of_int m / 2 ^ k)"
  using assms(1-3) roundEven_eqI[OF assms(4)] by (rule rnd_eval_gen)

text \<open>The same above \<open>2 ^ 53\<close>, where the unit in the last place is \<open>2 ^ k\<close>.\<close>

lemma rnd_eval_up:
  fixes x :: real and k :: nat
  assumes "2 ^ 52 \<le> x / 2 ^ k" "x / 2 ^ k < 2 ^ 53" "k \<le> 970"
    and r: "roundEven (x / 2 ^ k) = m"
  shows "rnd x = Num (of_int m * 2 ^ k)"
proof -
  have "0 < x / 2 ^ k" using assms(1) by (rule less_le_trans[rotated]) simp
  then have x: "0 < x" by (simp add: zero_less_divide_iff)
  have "(2::real) powi (52 + int k) = 2 ^ 52 * 2 ^ k"
    using pow2_split[of 52 "int k"] by simp
  also have "\<dots> \<le> x" using assms(1) by (simp add: field_simps)
  finally have lo: "2 powi (52 + int k) \<le> x" .
  have "x < 2 ^ 53 * 2 ^ k" using assms(2) by (simp add: field_simps)
  also have "\<dots> = 2 powi (52 + int k + 1)" using pow2_split[of 53 "int k"] by simp
  finally have "expo x = 52 + int k" using lo by (intro expo_unique)
  then have u: "ulpExp x = int k" by (simp add: ulpExp_def)
  have n: "nearest x = of_int m * 2 ^ k" using r by (simp add: nearest_def u)
  have "x / 2 ^ k \<le> of_int (2 ^ 53)" using assms(2) by simp
  then have "roundEven (x / 2 ^ k) \<le> roundEven (of_int (2 ^ 53))" by (rule roundEven_mono)
  then have "m \<le> 2 ^ 53" using r by (simp only: roundEven_of_int)
  then have "(of_int m :: real) \<le> of_int (2 ^ 53)" by (simp only: of_int_le_iff)
  then have "of_int m * 2 ^ k \<le> (2 ^ 53 :: real) * 2 ^ 970"
    using assms(3) by (intro mult_mono power_increasing) simp_all
  also have "\<dots> < 2 ^ 1024" by simp
  finally show ?thesis using x n by (simp add: rnd_def rndPos_def)
qed

text \<open>Integers below \<open>2 ^ 53\<close> are binary64 values, and so are the numerals of the examples.\<close>

lemma rnd_0 [simp]: "rnd 0 = Num 0"
  by (simp add: rnd_def)

lemma rnd_1 [simp]: "rnd 1 = Num 1"
  using rnd_int[of 1] by simp

lemma rnd_numeral [simp]:
  "(numeral n :: real) < 9007199254740992 \<Longrightarrow> rnd (numeral n) = Num (numeral n)"
  by (rule rnd_Ints) simp_all

lemma rnd_neg_numeral [simp]:
  "(numeral n :: real) < 9007199254740992 \<Longrightarrow> rnd (- numeral n) = Num (- numeral n)"
  by (rule rnd_Ints) simp_all

lemma lit_0 [simp]: "lit 0 = Num 0"
  by (simp add: lit_def)

lemma lit_1 [simp]: "lit 1 = Num 1"
  by (simp add: lit_def)

lemma lit_numeral [simp]:
  "(numeral n :: real) < 9007199254740992 \<Longrightarrow> lit (numeral n) = Num (numeral n)"
  by (simp add: lit_def)

lemma lit_not_NaN [simp]: "lit x \<noteq> NaN"
  by (simp add: lit_def)

lemma isInt_iff: "isInt r \<longleftrightarrow> r \<in> \<int>"
proof
  assume "isInt r"
  then have "of_int \<lfloor>r\<rfloor> = r" by (simp add: isInt_def)
  then show "r \<in> \<int>" by (rule subst) (rule Ints_of_int)
next
  assume "r \<in> \<int>"
  then obtain n where "r = of_int n" by (auto elim: Ints_cases)
  then show "isInt r" by (simp add: isInt_def)
qed

text \<open>The thresholds of the source and the scores of the examples.\<close>

lemma lit_tenth: "lit (1 / 10) = Num (3602879701896397 / 36028797018963968)"
  unfolding lit_def using rnd_eval[of "1 / 10" 56 7205759403792794] by simp

lemma lit_four_tenths:
  "lit (4 / 10) = Num (3602879701896397 / 9007199254740992)"
  "lit (2 / 5) = Num (3602879701896397 / 9007199254740992)"
  unfolding lit_def using rnd_eval[of "4 / 10" 54 7205759403792794] by simp_all

lemma lit_seven_tenths: "lit (7 / 10) = Num (3152519739159347 / 4503599627370496)"
  unfolding lit_def using rnd_eval[of "7 / 10" 53 6305039478318694] by simp

lemma lit_nine_tenths: "lit (9 / 10) = Num (8106479329266893 / 9007199254740992)"
  unfolding lit_def using rnd_eval[of "9 / 10" 53 8106479329266893] by simp

lemma lit_eight_tenths:
  "lit (8 / 10) = Num (3602879701896397 / 4503599627370496)"
  "lit (4 / 5) = Num (3602879701896397 / 4503599627370496)"
  unfolding lit_def using rnd_eval[of "8 / 10" 53 7205759403792794] by simp_all

lemma lit_three_tenths: "lit (3 / 10) = Num (5404319552844595 / 18014398509481984)"
  unfolding lit_def using rnd_eval[of "3 / 10" 54 5404319552844595] by simp

lemma lit_half: "lit (1 / 2) = Num (1 / 2)"
  unfolding lit_def using rnd_eval[of "1 / 2" 53 4503599627370496] by simp

lemma lit_seven_eighths: "lit (7 / 8) = Num (7 / 8)"
  unfolding lit_def using rnd_eval[of "7 / 8" 53 7881299347898368] by simp

lemmas lit_thresholds = lit_tenth lit_four_tenths lit_seven_tenths

section \<open>Arithmetic and order of JavaScript numbers\<close>

lemma jsub_Num [simp]: "jsub (Num a) (Num b) = rnd (a - b)"
  by (simp add: jsub_def)

lemma jgt_Num [simp]: "jgt (Num a) (Num b) = (b < a)"
  by (simp add: jgt_def)

lemma jle_Num [simp]: "jle (Num a) (Num b) = (a \<le> b)"
  by (auto simp: jle_def)

lemma jge_Num [simp]: "jge (Num a) (Num b) = (b \<le> a)"
  by (auto simp: jge_def)

lemma jlt_irrefl [simp]: "\<not> jlt a a"
  by (cases a) auto

lemma jlt_trans: "jlt a b \<Longrightarrow> jlt b c \<Longrightarrow> jlt a c"
  by (cases a; cases b; cases c) auto

lemma jlt_NaN_right [simp]: "\<not> jlt a NaN"
  by (cases a) auto

lemma jlt_linear: "a \<noteq> NaN \<Longrightarrow> b \<noteq> NaN \<Longrightarrow> jlt a b \<or> a = b \<or> jlt b a"
  by (cases a; cases b) auto

lemma jgt_irrefl [simp]: "\<not> jgt a a"
  by (simp add: jgt_def)

lemma jgt_trans: "jgt a b \<Longrightarrow> jgt b c \<Longrightarrow> jgt a c"
  unfolding jgt_def by (rule jlt_trans)

lemma jgt_asym: "jgt a b \<Longrightarrow> \<not> jgt b a"
  unfolding jgt_def by (cases a; cases b) auto

lemma jgt_NaN [simp]: "\<not> jgt a NaN" "\<not> jgt NaN a"
  by (cases a; simp add: jgt_def)+

lemma jgt_Num_mono: "jgt a (Num u) \<Longrightarrow> v \<le> u \<Longrightarrow> jgt a (Num v)"
  by (cases a) (auto simp: jgt_def)

lemma jle_iff: "jle a b \<longleftrightarrow> a \<noteq> NaN \<and> b \<noteq> NaN \<and> \<not> jgt a b"
  by (simp add: jle_def jgt_def)

lemma jle_jgt_trans: "jle a b \<Longrightarrow> jgt c b \<Longrightarrow> jgt c a"
  unfolding jle_def jgt_def by (cases a; cases b; cases c) auto

lemma not_jgt_jle: "jgt a c \<Longrightarrow> \<not> jgt a b \<Longrightarrow> b \<noteq> NaN \<Longrightarrow> jle a b"
  unfolding jle_def jgt_def by (cases a; cases b; cases c) auto

lemma jle_refl: "a \<noteq> NaN \<Longrightarrow> jle a a"
  by (simp add: jle_def)

lemma jle_trans: "jle a b \<Longrightarrow> jle b c \<Longrightarrow> jle a c"
  unfolding jle_def by (cases a; cases b; cases c) auto

lemma jle_total: "a \<noteq> NaN \<Longrightarrow> b \<noteq> NaN \<Longrightarrow> jle a b \<or> jle b a"
  unfolding jle_def by (cases a; cases b) auto

lemma NaN_absorbs [simp]:
  "jadd a NaN = NaN" "jsub a NaN = NaN" "jsub NaN a = NaN" "jmul a NaN = NaN" "jdiv a NaN = NaN"
  "jmax a NaN = NaN" "jmin a NaN = NaN"
  by (cases a; simp add: jsub_def)+

lemma inUnit_Num [simp]: "inUnit (Num r) \<longleftrightarrow> 0 \<le> r \<and> r \<le> 1"
  by (simp add: inUnit_def)

lemma inUnitE: "inUnit v \<Longrightarrow> (\<And>r. v = Num r \<Longrightarrow> 0 \<le> r \<Longrightarrow> r \<le> 1 \<Longrightarrow> P) \<Longrightarrow> P"
  by (cases v) (auto simp: inUnit_def)

lemma jge_iff: "jge a (Num 0) \<longleftrightarrow> a = PosInf \<or> (\<exists>r. a = Num r \<and> 0 \<le> r)"
  by (cases a) (auto simp: jge_def jle_def)

lemma rnd_jge_0: "0 \<le> x \<Longrightarrow> jge (rnd x) (Num 0)"
  using rnd_cases_nonneg[of x] by (auto simp: jge_iff)

text \<open>Sums, differences and products of integers below \<open>2 ^ 53\<close> are exact.\<close>

lemma jadd_Ints:
  "a \<in> \<int> \<Longrightarrow> b \<in> \<int> \<Longrightarrow> \<bar>a + b\<bar> < 2 ^ 53 \<Longrightarrow> jadd (Num a) (Num b) = Num (a + b)"
  by (simp add: rnd_Ints)

lemma jsub_Ints:
  "a \<in> \<int> \<Longrightarrow> b \<in> \<int> \<Longrightarrow> \<bar>a - b\<bar> < 2 ^ 53 \<Longrightarrow> jsub (Num a) (Num b) = Num (a - b)"
  by (simp add: rnd_Ints)

lemma jmul_Ints:
  "a \<in> \<int> \<Longrightarrow> b \<in> \<int> \<Longrightarrow> \<bar>a * b\<bar> < 2 ^ 53 \<Longrightarrow> jmul (Num a) (Num b) = Num (a * b)"
  by (simp add: rnd_Ints)

text \<open>A quotient of two numbers that are not negative is between 0 and 1 when the
  dividend is at most the divisor, also after rounding.\<close>

lemma rnd_unit: "0 \<le> x \<Longrightarrow> x \<le> 1 \<Longrightarrow> inUnit (rnd x)"
proof -
  assume x: "0 \<le> x" "x \<le> 1"
  from rnd_mono[OF x(1)] rnd_mono[OF x(2)] have "jle (Num 0) (rnd x)" "jle (rnd x) (Num 1)"
    by simp_all
  then show ?thesis by (cases "rnd x") (auto simp: inUnit_def jle_def)
qed

text \<open>
  The bounds of the loops of \<open>getCellsInBoundingBox\<close>: the lower bound is never
  -Infinity and the upper bound never +Infinity, so \<open>loopRange\<close> lists every value the
  loop variable takes, and a NaN bound gives no value.
\<close>

lemma loopRange_bounds: "jmax (Num 0) s \<noteq> NegInf" "jmin (Num u) e \<noteq> PosInf"
  by (cases s; simp) (cases e; simp)

lemma loopRange_NaN [simp]: "loopRange n NaN e = []" "loopRange n s NaN = []"
  by (simp_all add: loopRange_def split: jsnum.splits)

section \<open>Intersection over union and greedy suppression\<close>

lemma integerBoxE:
  assumes "integerBox b"
  obtains bx "by" bw bh where "b = (Num bx, Num by, Num bw, Num bh)"
    "bx \<in> \<int>" "by \<in> \<int>" "bw \<in> \<int>" "bh \<in> \<int>"
    "\<bar>bx\<bar> \<le> 2 ^ 25" "\<bar>by\<bar> \<le> 2 ^ 25" "0 \<le> bw" "bw \<le> 2 ^ 25" "0 \<le> bh" "bh \<le> 2 ^ 25"
proof -
  obtain p q r s where b: "b = (p, q, r, s)" by (cases b) auto
  from assms obtain bx "by" bw bh where n: "p = Num bx" "q = Num by" "r = Num bw" "s = Num bh"
    unfolding b integerBox_def by (cases p; cases q; cases r; cases s) simp_all
  from assms show thesis
    unfolding b n integerBox_def isInt_iff
    by (intro that[of bx "by" bw bh]) (simp_all add: b n)
qed

text \<open>
  On integer boxes no operation of \<open>calculateIoU\<close> rounds but the final division.
\<close>

lemma overlap_Ints:
  fixes x1 w1 x2 w2 :: real
  assumes "x1 \<in> \<int>" "w1 \<in> \<int>" "x2 \<in> \<int>" "w2 \<in> \<int>"
    and "\<bar>x1\<bar> \<le> 2 ^ 25" "\<bar>x2\<bar> \<le> 2 ^ 25" "0 \<le> w1" "w1 \<le> 2 ^ 25" "0 \<le> w2" "w2 \<le> 2 ^ 25"
  shows "jmax (Num 0) (jsub (jmin (jadd (Num x1) (Num w1)) (jadd (Num x2) (Num w2)))
                            (jmax (Num x1) (Num x2))) =
         Num (max 0 (min (x1 + w1) (x2 + w2) - max x1 x2))"
proof -
  have s1: "jadd (Num x1) (Num w1) = Num (x1 + w1)"
    using assms by (intro jadd_Ints) auto
  have s2: "jadd (Num x2) (Num w2) = Num (x2 + w2)"
    using assms by (intro jadd_Ints) auto
  have i1: "min (x1 + w1) (x2 + w2) \<in> \<int>" using assms by (simp add: min_def)
  have i2: "max x1 x2 \<in> \<int>" using assms by (simp add: max_def)
  have "\<bar>min (x1 + w1) (x2 + w2) - max x1 x2\<bar> \<le> 2 ^ 27" using assms by auto
  then have "\<bar>min (x1 + w1) (x2 + w2) - max x1 x2\<bar> < 2 ^ 53" by simp
  with i1 i2 have "jsub (Num (min (x1 + w1) (x2 + w2))) (Num (max x1 x2)) =
      Num (min (x1 + w1) (x2 + w2) - max x1 x2)"
    by (intro jsub_Ints)
  then show ?thesis unfolding s1 s2 by (simp del: jsub_Num)
qed

lemma area_Ints:
  fixes w h :: real
  assumes "w \<in> \<int>" "h \<in> \<int>" "0 \<le> w" "w \<le> 2 ^ 25" "0 \<le> h" "h \<le> 2 ^ 25"
  shows "jmul (Num w) (Num h) = Num (w * h)" "w * h \<le> 2 ^ 50" "0 \<le> w * h" "w * h \<in> \<int>"
proof -
  have "w * h \<le> 2 ^ 25 * 2 ^ 25" using assms by (intro mult_mono) simp_all
  then show le: "w * h \<le> 2 ^ 50" by simp
  show nn: "0 \<le> w * h" using assms by simp
  from le nn have "\<bar>w * h\<bar> < 2 ^ 53" by simp
  then show "jmul (Num w) (Num h) = Num (w * h)" using assms by (intro jmul_Ints)
  show "w * h \<in> \<int>" using assms by simp
qed

lemma calculateIoU_Ints:
  assumes "x1 \<in> \<int>" "y1 \<in> \<int>" "w1 \<in> \<int>" "h1 \<in> \<int>" "x2 \<in> \<int>" "y2 \<in> \<int>" "w2 \<in> \<int>" "h2 \<in> \<int>"
    and "\<bar>x1\<bar> \<le> 2 ^ 25" "\<bar>y1\<bar> \<le> 2 ^ 25" "0 \<le> w1" "w1 \<le> 2 ^ 25" "0 \<le> h1" "h1 \<le> 2 ^ 25"
    and "\<bar>x2\<bar> \<le> 2 ^ 25" "\<bar>y2\<bar> \<le> 2 ^ 25" "0 \<le> w2" "w2 \<le> 2 ^ 25" "0 \<le> h2" "h2 \<le> 2 ^ 25"
  shows "calculateIoU (Num x1, Num y1, Num w1, Num h1) (Num x2, Num y2, Num w2, Num h2) =
     (let i = max 0 (min (x1 + w1) (x2 + w2) - max x1 x2) *
              max 0 (min (y1 + h1) (y2 + h2) - max y1 y2);
          u = w1 * h1 + w2 * h2 - i
      in if 0 < u then rnd (i / u) else Num 0)"
proof -
  define iw where "iw = max 0 (min (x1 + w1) (x2 + w2) - max x1 x2)"
  define ih where "ih = max 0 (min (y1 + h1) (y2 + h2) - max y1 y2)"
  have ox: "jmax (Num 0) (jsub (jmin (jadd (Num x1) (Num w1)) (jadd (Num x2) (Num w2)))
                            (jmax (Num x1) (Num x2))) = Num iw"
    unfolding iw_def using assms by (intro overlap_Ints)
  have oy: "jmax (Num 0) (jsub (jmin (jadd (Num y1) (Num h1)) (jadd (Num y2) (Num h2)))
                            (jmax (Num y1) (Num y2))) = Num ih"
    unfolding ih_def using assms by (intro overlap_Ints)
  have iwb: "0 \<le> iw" "iw \<le> 2 ^ 25" "iw \<in> \<int>"
    using assms by (auto simp: iw_def max_def min_def)
  have ihb: "0 \<le> ih" "ih \<le> 2 ^ 25" "ih \<in> \<int>"
    using assms by (auto simp: ih_def max_def min_def)
  note i = area_Ints[OF iwb(3) ihb(3) iwb(1,2) ihb(1,2)]
  note a1 = area_Ints[OF assms(3,4,11,12,13,14)]
  note a2 = area_Ints[OF assms(7,8,17,18,19,20)]
  have "\<bar>w1 * h1 + w2 * h2\<bar> < 2 ^ 53" using a1(2,3) a2(2,3) by simp
  then have s: "jadd (Num (w1 * h1)) (Num (w2 * h2)) = Num (w1 * h1 + w2 * h2)"
    using a1(4) a2(4) by (intro jadd_Ints)
  have "\<bar>w1 * h1 + w2 * h2 - iw * ih\<bar> < 2 ^ 53" using a1(2,3) a2(2,3) i(2,3) by simp
  then have u: "jsub (Num (w1 * h1 + w2 * h2)) (Num (iw * ih)) = Num (w1 * h1 + w2 * h2 - iw * ih)"
    using a1(4) a2(4) i(4) by (intro jsub_Ints) simp_all
  have "calculateIoU (Num x1, Num y1, Num w1, Num h1) (Num x2, Num y2, Num w2, Num h2) =
        (if jgt (Num (w1 * h1 + w2 * h2 - iw * ih)) (Num 0)
         then jdiv (Num (iw * ih)) (Num (w1 * h1 + w2 * h2 - iw * ih)) else Num 0)"
    unfolding calculateIoU_def Let_def prod.case ox oy i(1) a1(1) a2(1) s u ..
  then show ?thesis unfolding Let_def iw_def[symmetric] ih_def[symmetric] by simp
qed

text \<open>
  Whatever the boxes, the result of \<open>calculateIoU\<close> is a number that is not negative
  (or +Infinity): the intersection is a product of two maxima with 0, and the division
  happens only by a union above 0.
\<close>

lemma jmax_0_cases: "jmax (Num 0) p = NaN \<or> jmax (Num 0) p = PosInf \<or> (\<exists>r. jmax (Num 0) p = Num r \<and> 0 \<le> r)"
  by (cases p) auto

lemma jmul_nonneg_cases:
  assumes "u = NaN \<or> u = PosInf \<or> (\<exists>r. u = Num r \<and> 0 \<le> r)"
    and "v = NaN \<or> v = PosInf \<or> (\<exists>r. v = Num r \<and> 0 \<le> r)"
  shows "jmul u v = NaN \<or> jmul u v = PosInf \<or> (\<exists>r. jmul u v = Num r \<and> 0 \<le> r)"
proof -
  have "rnd (a * b) = PosInf \<or> (\<exists>r. rnd (a * b) = Num r \<and> 0 \<le> r)" if "0 \<le> a" "0 \<le> b" for a b :: real
    using that by (intro rnd_cases_nonneg) simp
  then show ?thesis using assms by (cases u; cases v) auto
qed

lemma guarded_quotient_nonneg:
  assumes "i = NaN \<or> i = PosInf \<or> (\<exists>r. i = Num r \<and> 0 \<le> r)"
  shows "jge (if jgt (jsub s i) (Num 0) then jdiv i (jsub s i) else Num 0) (Num 0)"
proof -
  from assms consider "i = NaN" | "i = PosInf" | r where "i = Num r" "0 \<le> r" by blast
  then show ?thesis
  proof cases
    case 1
    then show ?thesis by (simp add: jge_def jle_def)
  next
    case 2
    then have "\<not> jgt (jsub s i) (Num 0)" by (cases s) (simp_all add: jsub_def jgt_def)
    then show ?thesis by (simp add: jge_def jle_def)
  next
    case 3
    show ?thesis
    proof (cases "jgt (jsub s i) (Num 0)")
      case False
      then show ?thesis by (simp add: jge_def jle_def)
    next
      case True
      then consider "jsub s i = PosInf" | u where "jsub s i = Num u" "0 < u"
        by (cases "jsub s i") (auto simp: jgt_def)
      then show ?thesis
      proof cases
        case 1
        then show ?thesis using True 3 by (simp add: jge_def jle_def)
      next
        case 2
        have "jge (rnd (r / u)) (Num 0)" using 3(2) 2(2) by (intro rnd_jge_0) simp
        then show ?thesis using True 3 2 by simp
      qed
    qed
  qed
qed

lemma calculateIoU_nonneg: "jge (calculateIoU a b) (Num 0)"
proof -
  obtain x1 y1 w1 h1 where a: "a = (x1, y1, w1, h1)" by (cases a) auto
  obtain x2 y2 w2 h2 where b: "b = (x2, y2, w2, h2)" by (cases b) auto
  show ?thesis
    unfolding a b calculateIoU_def Let_def prod.case
    by (intro guarded_quotient_nonneg jmul_nonneg_cases jmax_0_cases)
qed

lemma validBoxE:
  assumes "validBox b"
  obtains bx "by" bw bh where "b = (Num bx, Num by, Num bw, Num bh)" "0 < bw" "0 < bh"
  using assms unfolding validBox_def
  by (auto split: prod.splits jsnum.splits)

lemma calculateIoU_NaN:
  assumes "hasNaN a"
  shows "calculateIoU a b = Num 0" "calculateIoU b a = Num 0"
proof -
  obtain x1 y1 w1 h1 where a: "a = (x1, y1, w1, h1)" by (cases a) auto
  obtain x2 y2 w2 h2 where b: "b = (x2, y2, w2, h2)" by (cases b) auto
  from assms consider "x1 = NaN" | "y1 = NaN" | "w1 = NaN" | "h1 = NaN"
    unfolding a hasNaN_def by auto
  then show "calculateIoU a b = Num 0"
    by cases (simp_all add: a b calculateIoU_def Let_def)
  from assms consider "x1 = NaN" | "y1 = NaN" | "w1 = NaN" | "h1 = NaN"
    unfolding a hasNaN_def by auto
  then show "calculateIoU b a = Num 0"
    by cases (simp_all add: a b calculateIoU_def Let_def)
qed

lemma fold_suppress:
  "fold (\<lambda>j s. if j \<in> s then s else if P j then insert j s else s) xs S
     = S \<union> {j \<in> set xs. P j}"
  by (induction xs arbitrary: S) auto

lemma suppressFrom_eq:
  "suppressFrom thr ds i S = S \<union> {j. i < j \<and> j < length ds \<and> overlaps thr ds i j}"
proof -
  have "set [i + 1 ..< length ds] = {j. i < j \<and> j < length ds}" by auto
  then show ?thesis unfolding suppressFrom_def overlaps_def fold_suppress by blast
qed

text \<open>
  The invariant of the outer loop of \<open>applyNMS\<close> after the rounds \<open>0, ..., m - 1\<close>:
  \<open>selected\<close> holds the detections at the indices below \<open>m\<close> that are not
  suppressed, and an index is suppressed exactly when a kept index below \<open>m\<close> and
  below it overlaps it.
\<close>

lemma nms_prefix_inv:
  assumes "m \<le> length ds"
  shows "fst (fold (nmsStep thr ds) [0 ..< m] ([], {})) =
           map ((!) ds) (filter (\<lambda>i. i \<notin> snd (fold (nmsStep thr ds) [0 ..< m] ([], {}))) [0 ..< m]) \<and>
         (\<forall>j. j \<in> snd (fold (nmsStep thr ds) [0 ..< m] ([], {})) \<longleftrightarrow>
              j < length ds \<and>
              (\<exists>i. i < m \<and> i < j \<and> i \<notin> snd (fold (nmsStep thr ds) [0 ..< m] ([], {})) \<and>
                   overlaps thr ds i j))"
  using assms
proof (induction m)
  case 0
  then show ?case by simp
next
  case (Suc m)
  obtain sel S where st: "fold (nmsStep thr ds) [0 ..< m] ([], {}) = (sel, S)"
    by (cases "fold (nmsStep thr ds) [0 ..< m] ([], {})") auto
  from Suc have m: "m < length ds" by simp
  then have "m \<le> length ds" by simp
  from Suc.IH[OF this] have sel: "sel = map ((!) ds) (filter (\<lambda>i. i \<notin> S) [0 ..< m])"
    and S: "\<And>j. j \<in> S \<longleftrightarrow> j < length ds \<and> (\<exists>i. i < m \<and> i < j \<and> i \<notin> S \<and> overlaps thr ds i j)"
    unfolding st fst_conv snd_conv by blast+
  have step: "fold (nmsStep thr ds) [0 ..< Suc m] ([], {}) = nmsStep thr ds m (sel, S)"
    by (simp add: st)
  show ?case
  proof (cases "m \<in> S")
    case True
    have st': "nmsStep thr ds m (sel, S) = (sel, S)" using True by (simp add: nmsStep_def)
    have a: "sel = map ((!) ds) (filter (\<lambda>i. i \<notin> S) [0 ..< Suc m])"
      using True sel by simp
    have b: "\<forall>j. j \<in> S \<longleftrightarrow> j < length ds \<and> (\<exists>i. i < Suc m \<and> i < j \<and> i \<notin> S \<and> overlaps thr ds i j)"
    proof (intro allI iffI)
      fix j assume "j \<in> S"
      with S[of j] obtain i where "j < length ds" "i < m" "i < j" "i \<notin> S" "overlaps thr ds i j"
        by blast
      then show "j < length ds \<and> (\<exists>i. i < Suc m \<and> i < j \<and> i \<notin> S \<and> overlaps thr ds i j)"
        by (intro conjI exI[of _ i]) auto
    next
      fix j assume "j < length ds \<and> (\<exists>i. i < Suc m \<and> i < j \<and> i \<notin> S \<and> overlaps thr ds i j)"
      then obtain i where i: "i < Suc m" "i < j" "i \<notin> S" "overlaps thr ds i j" and j: "j < length ds"
        by blast
      from i True have "i \<noteq> m" by blast
      with i have "i < m" by simp
      with i j show "j \<in> S" using S[of j] by blast
    qed
    show ?thesis unfolding step st' fst_conv snd_conv using a b by (rule conjI)
  next
    case False
    define S' where "S' = S \<union> {j. m < j \<and> j < length ds \<and> overlaps thr ds m j}"
    have st': "nmsStep thr ds m (sel, S) = (sel @ [ds ! m], S')"
      using False by (simp add: nmsStep_def suppressFrom_eq S'_def)
    have same: "\<And>i. i \<le> m \<Longrightarrow> i \<in> S' \<longleftrightarrow> i \<in> S" by (auto simp: S'_def)
    have "filter (\<lambda>i. i \<notin> S') [0 ..< m] = filter (\<lambda>i. i \<notin> S) [0 ..< m]"
      by (rule filter_cong) (auto simp: same)
    then have a: "sel @ [ds ! m] = map ((!) ds) (filter (\<lambda>i. i \<notin> S') [0 ..< Suc m])"
      using False same[of m] by (simp add: sel)
    have b: "\<forall>j. j \<in> S' \<longleftrightarrow> j < length ds \<and> (\<exists>i. i < Suc m \<and> i < j \<and> i \<notin> S' \<and> overlaps thr ds i j)"
    proof (intro allI iffI)
      fix j assume "j \<in> S'"
      then consider "j \<in> S" | "m < j" "j < length ds" "overlaps thr ds m j"
        unfolding S'_def by blast
      then show "j < length ds \<and> (\<exists>i. i < Suc m \<and> i < j \<and> i \<notin> S' \<and> overlaps thr ds i j)"
      proof cases
        case 1
        with S[of j] obtain i where i: "j < length ds" "i < m" "i < j" "i \<notin> S" "overlaps thr ds i j"
          by blast
        then have "i \<notin> S'" using same[of i] by simp
        with i show ?thesis by (intro conjI exI[of _ i]) auto
      next
        case 2
        have "m \<notin> S'" using False same[of m] by simp
        with 2 show ?thesis by (intro conjI exI[of _ m]) auto
      qed
    next
      fix j assume "j < length ds \<and> (\<exists>i. i < Suc m \<and> i < j \<and> i \<notin> S' \<and> overlaps thr ds i j)"
      then obtain i where i: "i < Suc m" "i < j" "i \<notin> S'" "overlaps thr ds i j" and j: "j < length ds"
        by blast
      show "j \<in> S'"
      proof (cases "i = m")
        case True
        then show ?thesis using i j unfolding S'_def by blast
      next
        case False
        then have "i < m" using i by simp
        moreover have "i \<notin> S" using i same[of i] by simp
        ultimately have "j \<in> S" using S[of j] i j by blast
        then show ?thesis unfolding S'_def by blast
      qed
    qed
    show ?thesis unfolding step st' fst_conv snd_conv using a b by (rule conjI)
  qed
qed

lemma applyNMS_pair:
  "applyNMS sim [a, b] =
     (if jgt (calculateIoU (bbox a) (bbox b)) (iouThreshold sim) then [a] else [a, b])"
  by (simp add: applyNMS_def nmsLoop_def nmsStep_def suppressFrom_def upt_rec)

lemma applyNMS_single: "applyNMS sim [d] = [d]"
  by (simp add: applyNMS_def nmsLoop_def nmsStep_def suppressFrom_def)

section \<open>One cell under mapDetectionToGrid and updateDetections\<close>

text \<open>
  The mapping writes the fields \<open>state\<close>, \<open>confidence\<close> and \<open>detection\<close> of a cell
  and reads its rectangle only.
\<close>

lemma unmapped_simps [simp]:
  "unmapped (c\<lparr>state := s\<rparr>) = unmapped c"
  "unmapped (c\<lparr>confidence := v\<rparr>) = unmapped c"
  "unmapped (c\<lparr>detection := w\<rparr>) = unmapped c"
  "unmapped (unmapped c) = unmapped c"
  by (simp_all add: unmapped_def)

lemma unmapped_fields [simp]:
  "cellX (unmapped c) = cellX c" "cellY (unmapped c) = cellY c"
  "cellW (unmapped c) = cellW c" "cellH (unmapped c) = cellH c"
  by (simp_all add: unmapped_def)

lemma cell_eqI:
  assumes "unmapped c = unmapped c'" "state c = state c'" "confidence c = confidence c'"
    "detection c = detection c'"
  shows "c = c'"
proof -
  have "c = (unmapped c)\<lparr>state := state c, confidence := confidence c, detection := detection c\<rparr>"
    by (simp add: unmapped_def)
  also have "\<dots> = (unmapped c')\<lparr>state := state c', confidence := confidence c', detection := detection c'\<rparr>"
    using assms by simp
  also have "\<dots> = c'" by (simp add: unmapped_def)
  finally show ?thesis .
qed

lemma adjustedConfidence_unmapped:
  "adjustedConfidence (unmapped c) d = adjustedConfidence c d"
  by (simp add: adjustedConfidence_def calculateIntersection_def)

lemma adjustedConfidence_cong:
  "unmapped c = unmapped c' \<Longrightarrow> adjustedConfidence c d = adjustedConfidence c' d"
  by (metis adjustedConfidence_unmapped)

lemma unmapped_mapCell [simp]: "unmapped (mapCell d c) = unmapped c"
  by (simp add: mapCell_def Let_def)

lemma unmapped_resetCell [simp]: "unmapped (resetCell c) = unmapped c"
  by (simp add: resetCell_def)

lemma unmapped_cellStep [simp]: "unmapped (cellStep g k d c) = unmapped c"
  by (simp add: cellStep_def)

lemma unmapped_cellRun [simp]: "unmapped (cellRun g k ds c) = unmapped c"
  unfolding cellRun_def by (induction ds arbitrary: c) auto

lemma adjustedConfidence_mapCell [simp]:
  "adjustedConfidence (mapCell d' c) d = adjustedConfidence c d"
  by (rule adjustedConfidence_cong) simp

lemma adjustedConfidence_cellStep [simp]:
  "adjustedConfidence (cellStep g k d' c) d = adjustedConfidence c d"
  by (rule adjustedConfidence_cong) simp

lemma adjustedConfidence_cellRun [simp]:
  "adjustedConfidence (cellRun g k ds c) d = adjustedConfidence c d"
  by (rule adjustedConfidence_cong) simp

lemma adjustedConfidence_resetCell [simp]:
  "adjustedConfidence (resetCell c) d = adjustedConfidence c d"
  by (rule adjustedConfidence_cong) simp

lemma resetCell_geometry [simp]:
  "cellX (resetCell c) = cellX c" "cellY (resetCell c) = cellY c"
  "cellW (resetCell c) = cellW c" "cellH (resetCell c) = cellH c"
  by (simp_all add: resetCell_def)

lemma confidence_resetCell: "confidence (resetCell c) = startConfidence c"
  by (simp add: resetCell_def startConfidence_def)

lemma resetCell_unmapped:
  "state c \<noteq> Inactive \<Longrightarrow> resetCell c = (unmapped c)\<lparr>state := Active\<rparr>"
  by (simp add: resetCell_def unmapped_def)

lemma resetCell_inactive: "state c = Inactive \<Longrightarrow> resetCell c = c"
  by (simp add: resetCell_def)

lemma mapCell_idem: "mapCell d (mapCell d c) = mapCell d c"
proof (cases "jgt (adjustedConfidence c d) (confidence c)")
  case True
  then have "confidence (mapCell d c) = adjustedConfidence c d"
    by (simp add: mapCell_def Let_def)
  then have "\<not> jgt (adjustedConfidence (mapCell d c) d) (confidence (mapCell d c))"
    by simp
  then show ?thesis by (subst mapCell_def) (simp add: Let_def)
next
  case False
  then show ?thesis by (simp add: mapCell_def Let_def)
qed

lemma confidence_mapCell:
  "confidence (mapCell d c) =
     (if jgt (adjustedConfidence c d) (confidence c) then adjustedConfidence c d else confidence c)"
  by (simp add: mapCell_def Let_def)

lemma state_mapCell:
  "state (mapCell d c) =
     (if jgt (adjustedConfidence c d) (confidence c) \<and> jgt (adjustedConfidence c d) (lit (1 / 10))
      then (if jgt (adjustedConfidence c d) (lit (7 / 10)) then Confident
            else if jgt (adjustedConfidence c d) (lit (4 / 10)) then Detected
            else Detecting)
      else state c)"
proof -
  have "jgt (adjustedConfidence c d) (lit (7 / 10)) \<Longrightarrow> jgt (adjustedConfidence c d) (lit (1 / 10))"
    by (cases "adjustedConfidence c d") (simp_all add: jgt_def lit_thresholds)
  moreover have "jgt (adjustedConfidence c d) (lit (4 / 10)) \<Longrightarrow> jgt (adjustedConfidence c d) (lit (1 / 10))"
    by (cases "adjustedConfidence c d") (simp_all add: jgt_def lit_thresholds)
  ultimately show ?thesis by (auto simp add: mapCell_def Let_def)
qed

text \<open>
  From the array to one cell: the \<open>forEach\<close> over the affected cells applies \<open>mapCell\<close>
  to each of them (an index that occurs twice makes no difference), and the \<open>forEach\<close>
  over the detections runs \<open>cellStep\<close> on every cell.
\<close>

lemma fold_update_length [simp]:
  "length (fold (\<lambda>i cs. if i < length cs then cs[i := f (cs ! i)] else cs) is cs) = length cs"
  by (induction "is" arbitrary: cs) auto

lemma fold_update_nth:
  assumes idem: "\<And>c. f (f c) = f c" and k: "k < length cs"
  shows "fold (\<lambda>i cs. if i < length cs then cs[i := f (cs ! i)] else cs) is cs ! k =
           (if k \<in> set is then f (cs ! k) else cs ! k)"
  using k
proof (induction "is" arbitrary: cs)
  case Nil
  then show ?case by simp
next
  case (Cons i "is")
  show ?case
  proof (cases "i < length cs")
    case True
    let ?cs = "cs[i := f (cs ! i)]"
    have k': "k < length ?cs" using Cons.prems by simp
    have "fold (\<lambda>i cs. if i < length cs then cs[i := f (cs ! i)] else cs) (i # is) cs ! k =
          (if k \<in> set is then f (?cs ! k) else ?cs ! k)"
      using Cons.IH[OF k'] True by simp
    also have "\<dots> = (if k \<in> set (i # is) then f (cs ! k) else cs ! k)"
      using True Cons.prems by (cases "k = i") (simp_all add: idem)
    finally show ?thesis .
  next
    case False
    then have "k \<noteq> i" using Cons.prems by auto
    then show ?thesis using False Cons.IH[OF Cons.prems] by simp
  qed
qed

lemma affectedCells_cells [simp]: "affectedCells (g\<lparr>cells := cs\<rparr>) d = affectedCells g d"
  by (simp add: affectedCells_def getCellsInBoundingBox_def)

lemma affectedCells_detections [simp]: "affectedCells (g\<lparr>detections := ds\<rparr>) d = affectedCells g d"
  by (simp add: affectedCells_def getCellsInBoundingBox_def)

lemma affectedCells_frame:
  "gridSize g' = gridSize g \<Longrightarrow> canvasWidth g' = canvasWidth g \<Longrightarrow>
   canvasHeight g' = canvasHeight g \<Longrightarrow> affectedCells g' d = affectedCells g d"
  by (simp add: affectedCells_def getCellsInBoundingBox_def)

lemma cellStep_cells [simp]: "cellStep (g\<lparr>cells := cs\<rparr>) = cellStep g"
  by (intro ext) (simp add: cellStep_def)

lemma cellStep_detections [simp]: "cellStep (g\<lparr>detections := ds\<rparr>) = cellStep g"
  by (intro ext) (simp add: cellStep_def)

lemma mapDetectionToGrid_length [simp]:
  "length (cells (mapDetectionToGrid g d)) = length (cells g)"
  by (simp add: mapDetectionToGrid_def)

lemma mapDetectionToGrid_nth:
  "k < length (cells g) \<Longrightarrow> cells (mapDetectionToGrid g d) ! k = cellStep g k d (cells g ! k)"
proof -
  assume k: "k < length (cells g)"
  have "fold (\<lambda>i cs. if i < length cs then cs[i := mapCell d (cs ! i)] else cs)
          (affectedCells g d) (cells g) ! k =
        (if k \<in> set (affectedCells g d) then mapCell d (cells g ! k) else cells g ! k)"
    using mapCell_idem k by (rule fold_update_nth)
  then show ?thesis by (simp add: mapDetectionToGrid_def cellStep_def)
qed

lemma mapDetectionToGrid_frame:
  "mapDetectionToGrid g d = g\<lparr>cells := cells (mapDetectionToGrid g d)\<rparr>"
  by (simp add: mapDetectionToGrid_def)

lemma fold_map_frame:
  "fold (\<lambda>d g'. mapDetectionToGrid g' d) ds g =
     g\<lparr>cells := cells (fold (\<lambda>d g'. mapDetectionToGrid g' d) ds g)\<rparr>"
proof (induction ds arbitrary: g)
  case Nil
  then show ?case by simp
next
  case (Cons d ds)
  have "fold (\<lambda>d g'. mapDetectionToGrid g' d) (d # ds) g =
        fold (\<lambda>d g'. mapDetectionToGrid g' d) ds (mapDetectionToGrid g d)" by simp
  also have "\<dots> = (mapDetectionToGrid g d)\<lparr>cells := cells (fold (\<lambda>d g'. mapDetectionToGrid g' d) ds (mapDetectionToGrid g d))\<rparr>"
    by (rule Cons.IH)
  also have "\<dots> = g\<lparr>cells := cells (fold (\<lambda>d g'. mapDetectionToGrid g' d) ds (mapDetectionToGrid g d))\<rparr>"
    by (subst mapDetectionToGrid_frame) simp
  finally show ?case by simp
qed

lemma fold_map_length [simp]:
  "length (cells (fold (\<lambda>d g'. mapDetectionToGrid g' d) ds g)) = length (cells g)"
  by (induction ds arbitrary: g) auto

lemma fold_map_nth:
  "k < length (cells g) \<Longrightarrow>
   cells (fold (\<lambda>d g'. mapDetectionToGrid g' d) ds g) ! k = cellRun g k ds (cells g ! k)"
proof (induction ds arbitrary: g)
  case Nil
  then show ?case by (simp add: cellRun_def)
next
  case (Cons d ds)
  let ?g = "mapDetectionToGrid g d"
  have k: "k < length (cells ?g)" using Cons.prems by simp
  have step: "cellStep ?g = cellStep g"
    by (subst mapDetectionToGrid_frame) simp
  have "cells (fold (\<lambda>d g'. mapDetectionToGrid g' d) (d # ds) g) ! k =
        cellRun ?g k ds (cells ?g ! k)"
    using Cons.IH[OF k] by simp
  also have "\<dots> = cellRun g k ds (cellStep g k d (cells g ! k))"
    using Cons.prems by (simp add: cellRun_def step mapDetectionToGrid_nth)
  finally show ?case by (simp add: cellRun_def)
qed

lemma updateDetections_length [simp]:
  "length (cells (updateDetections g ds)) = length (cells g)"
  by (simp add: updateDetections_def)

lemma updateDetections_nth:
  "k < length (cells g) \<Longrightarrow>
   cells (updateDetections g ds) ! k = cellRun g k ds (resetCell (cells g ! k))"
  by (simp add: updateDetections_def fold_map_nth cellRun_def)

lemma updateDetections_frame:
  "updateDetections g ds = g\<lparr>detections := ds, cells := cells (updateDetections g ds)\<rparr>"
  unfolding updateDetections_def by (subst fold_map_frame) simp

lemma updateDetections_frame_simps [simp]:
  "gridSize (updateDetections g ds) = gridSize g"
  "canvasWidth (updateDetections g ds) = canvasWidth g"
  "canvasHeight (updateDetections g ds) = canvasHeight g"
proof -
  note f = updateDetections_frame[of g ds]
  show "gridSize (updateDetections g ds) = gridSize g" by (subst f) simp
  show "canvasWidth (updateDetections g ds) = canvasWidth g" by (subst f) simp
  show "canvasHeight (updateDetections g ds) = canvasHeight g" by (subst f) simp
qed

lemma updateDetections_activeCells [simp]:
  "activeCells (updateDetections g ds) = activeCells g"
  by (subst updateDetections_frame) simp

lemma mapDetectionToGrid_cell:
  assumes "k < length (cells g)"
  shows "cells (mapDetectionToGrid g d) ! k =
     (if k \<in> set (affectedCells g d) \<and>
         jgt (adjustedConfidence (cells g ! k) d) (confidence (cells g ! k))
      then (cells g ! k)
             \<lparr>confidence := adjustedConfidence (cells g ! k) d,
              detection := Some d,
              state := (if jgt (adjustedConfidence (cells g ! k) d) (lit (7 / 10)) then Confident
                        else if jgt (adjustedConfidence (cells g ! k) d) (lit (4 / 10)) then Detected
                        else if jgt (adjustedConfidence (cells g ! k) d) (lit (1 / 10)) then Detecting
                        else state (cells g ! k))\<rparr>
      else cells g ! k)"
  unfolding mapDetectionToGrid_nth[OF assms]
  by (simp add: cellStep_def mapCell_def Let_def)

text \<open>
  The run of the detections over one cell: the confidence never decreases, it ends at
  the start value or at an adjusted confidence, and no candidate exceeds it.
\<close>

lemma cellRun_Nil [simp]: "cellRun g k [] c = c"
  by (simp add: cellRun_def)

lemma cellRun_Cons [simp]: "cellRun g k (d # ds) c = cellRun g k ds (cellStep g k d c)"
  by (simp add: cellRun_def)

lemma cellRun_append: "cellRun g k (xs @ ys) c = cellRun g k ys (cellRun g k xs c)"
  by (simp add: cellRun_def)

lemma updateDetections_single:
  "k < length (cells g) \<Longrightarrow>
   cells (updateDetections g [d]) ! k =
     (if k \<in> set (affectedCells g d) then mapCell d (resetCell (cells g ! k))
      else resetCell (cells g ! k))"
  by (simp add: updateDetections_nth cellStep_def)

lemma confidence_cellStep:
  "confidence (cellStep g k d c) =
     (if k \<in> set (affectedCells g d) \<and> jgt (adjustedConfidence c d) (confidence c)
      then adjustedConfidence c d else confidence c)"
  by (simp add: cellStep_def confidence_mapCell)

lemma cellStep_noop:
  "\<not> (k \<in> set (affectedCells g d) \<and> jgt (adjustedConfidence c d) (confidence c)) \<Longrightarrow>
   cellStep g k d c = c"
  by (auto simp: cellStep_def mapCell_def Let_def)

lemma cellRun_mono:
  "confidence (cellRun g k ds c) = confidence c \<or> jgt (confidence (cellRun g k ds c)) (confidence c)"
proof (induction ds arbitrary: c)
  case Nil
  then show ?case by simp
next
  case (Cons d ds)
  from Cons.IH[of "cellStep g k d c"]
  show ?case
    by (auto simp: confidence_cellStep split: if_splits intro: jgt_trans)
qed

lemma cellRun_attained:
  "confidence (cellRun g k ds c) = confidence c \<or>
   (\<exists>d \<in> set ds. k \<in> set (affectedCells g d) \<and>
       confidence (cellRun g k ds c) = adjustedConfidence c d)"
proof (induction ds arbitrary: c)
  case Nil
  then show ?case by simp
next
  case (Cons d ds)
  from Cons.IH[of "cellStep g k d c"]
  show ?case
    by (auto simp: confidence_cellStep split: if_splits)
qed

lemma cellRun_upper:
  "d \<in> set ds \<Longrightarrow> k \<in> set (affectedCells g d) \<Longrightarrow>
   \<not> jgt (adjustedConfidence c d) (confidence (cellRun g k ds c))"
proof (induction ds arbitrary: c)
  case Nil
  then show ?case by simp
next
  case (Cons e ds)
  let ?c = "cellStep g k e c"
  show ?case
  proof (cases "d \<in> set ds")
    case True
    from Cons.IH[OF True Cons.prems(2), of ?c] show ?thesis by simp
  next
    case False
    with Cons.prems have e: "e = d" by simp
    have now: "\<not> jgt (adjustedConfidence c d) (confidence ?c)"
      using Cons.prems(2) unfolding e by (simp add: confidence_cellStep)
    from cellRun_mono[of g k ds ?c]
    show ?thesis
    proof
      assume "confidence (cellRun g k ds ?c) = confidence ?c"
      with now show ?thesis by simp
    next
      assume up: "jgt (confidence (cellRun g k ds ?c)) (confidence ?c)"
      show ?thesis
      proof
        assume "jgt (adjustedConfidence c d) (confidence (cellRun g k (e # ds) c))"
        then have "jgt (adjustedConfidence c d) (confidence (cellRun g k ds ?c))" by simp
        from jgt_trans[OF this up] now show False by simp
      qed
    qed
  qed
qed

lemma cellRun_fixed:
  "(\<And>d. d \<in> set ds \<Longrightarrow> k \<in> set (affectedCells g d) \<Longrightarrow>
        \<not> jgt (adjustedConfidence c d) (confidence c)) \<Longrightarrow>
   cellRun g k ds c = c"
proof (induction ds arbitrary: c)
  case Nil
  then show ?case by simp
next
  case (Cons e ds)
  have "cellStep g k e c = c"
    by (rule cellStep_noop) (use Cons.prems in auto)
  then show ?case using Cons by simp
qed

lemma cellRun_state_low:
  "state c = Active \<or> jgt (confidence c) (lit (1 / 10)) \<Longrightarrow>
   state (cellRun g k ds c) = Active \<or> jgt (confidence (cellRun g k ds c)) (lit (1 / 10))"
proof (induction ds arbitrary: c)
  case Nil
  then show ?case by simp
next
  case (Cons d ds)
  have "state (cellStep g k d c) = Active \<or> jgt (confidence (cellStep g k d c)) (lit (1 / 10))"
    using Cons.prems
    by (auto simp: cellStep_def state_mapCell confidence_mapCell intro: jgt_trans)
  from Cons.IH[OF this] show ?case by simp
qed

lemma updateDetections_active_low:
  assumes "k < length (cells g)" "state (cells g ! k) \<noteq> Inactive"
  shows "state (cells (updateDetections g ds) ! k) = Active \<or>
         jgt (confidence (cells (updateDetections g ds) ! k)) (lit (1 / 10))"
  unfolding updateDetections_nth[OF assms(1)]
  by (rule cellRun_state_low) (simp add: resetCell_def assms(2))

text \<open>
  Below the threshold 0.1 an adoption leaves the state as it is: after the run the cell
  has the state it started with, or a confidence above 0.1.
\<close>

lemma cellRun_state_kept:
  "state c = s \<or> jgt (confidence c) (lit (1 / 10)) \<Longrightarrow>
   state (cellRun g k ds c) = s \<or> jgt (confidence (cellRun g k ds c)) (lit (1 / 10))"
proof (induction ds arbitrary: c)
  case Nil
  then show ?case by simp
next
  case (Cons d ds)
  have "state (cellStep g k d c) = s \<or> jgt (confidence (cellStep g k d c)) (lit (1 / 10))"
    using Cons.prems
    by (auto simp: cellStep_def state_mapCell confidence_mapCell intro: jgt_trans)
  from Cons.IH[OF this] show ?case by simp
qed

lemma updateDetections_state_kept:
  assumes "k < length (cells g)"
  shows "state (cells (updateDetections g ds) ! k) =
           (if state (cells g ! k) = Inactive then Inactive else Active) \<or>
         jgt (confidence (cells (updateDetections g ds) ! k)) (lit (1 / 10))"
  unfolding updateDetections_nth[OF assms]
  by (rule cellRun_state_kept) (simp add: resetCell_def)

text \<open>
  \<open>updateDetections\<close> resets and then maps the detections one after the other: with
  no detection the cells are the reset cells, and one more detection at the end is one
  more \<open>mapDetectionToGrid\<close>.
\<close>

lemma updateDetections_Nil: "cells (updateDetections g []) = map resetCell (cells g)"
  by (simp add: updateDetections_def)

lemma updateDetections_snoc:
  "cells (updateDetections g (ds @ [d])) = cells (mapDetectionToGrid (updateDetections g ds) d)"
proof (rule nth_equalityI)
  show "length (cells (updateDetections g (ds @ [d]))) =
        length (cells (mapDetectionToGrid (updateDetections g ds) d))" by simp
  fix k assume "k < length (cells (updateDetections g (ds @ [d])))"
  then have k: "k < length (cells g)" by simp
  then have k1: "k < length (cells (updateDetections g ds))" by simp
  have step: "cellStep (updateDetections g ds) = cellStep g"
    by (subst updateDetections_frame) simp
  show "cells (updateDetections g (ds @ [d])) ! k =
        cells (mapDetectionToGrid (updateDetections g ds) d) ! k"
    unfolding mapDetectionToGrid_nth[OF k1] updateDetections_nth[OF k] step
    by (simp add: cellRun_append)
qed

lemma updateDetections_inactive_cell:
  assumes "k < length (cells g)" "state (cells g ! k) = Inactive"
  shows "cells (updateDetections g ds) ! k = cellRun g k ds (cells g ! k)"
  unfolding updateDetections_nth[OF assms(1)] by (simp add: resetCell_inactive assms(2))

lemma inactive_keeps_low_detection:
  assumes k: "k < length (cells g)" and st: "state (cells g ! k) = Inactive"
    and cand: "k \<in> set (affectedCells g d)"
    and a: "adjustedConfidence (cells g ! k) d = Num a" "0 < a" "jle (Num a) (lit (1 / 10))"
    and c0: "confidence (cells g ! k) = Num 0"
  shows "state (cells (updateDetections g [d]) ! k) = Inactive \<and>
         confidence (cells (updateDetections g [d]) ! k) = Num a \<and>
         detection (cells (updateDetections g [d]) ! k) = Some d"
proof -
  have "\<not> jgt (Num a) (lit (1 / 10))" using a(3) by (simp add: jle_iff)
  then have "state (mapCell d (cells g ! k)) = Inactive"
    using st a(1) by (simp add: state_mapCell)
  moreover have "confidence (mapCell d (cells g ! k)) = Num a"
    using a(1,2) c0 by (simp add: confidence_mapCell)
  moreover have "detection (mapCell d (cells g ! k)) = Some d"
    using a(1,2) c0 by (simp add: mapCell_def Let_def)
  ultimately show ?thesis
    unfolding updateDetections_inactive_cell[OF k st] using cand by (simp add: cellStep_def)
qed

lemma updateDetections_tie:
  assumes k: "k < length (cells g)" and cand: "k \<in> set (affectedCells g d)"
    and eq: "adjustedConfidence (cells g ! k) d = adjustedConfidence (cells g ! k) d'"
  shows "cells (updateDetections g [d, d']) ! k = cells (updateDetections g [d]) ! k"
proof -
  let ?c = "resetCell (cells g ! k)"
  have "\<not> jgt (adjustedConfidence ?c d) (confidence (cellRun g k [d] ?c))"
    using cand by (intro cellRun_upper) simp_all
  then have "\<not> jgt (adjustedConfidence (cellStep g k d ?c) d') (confidence (cellStep g k d ?c))"
    using eq by simp
  then have "cellStep g k d' (cellStep g k d ?c) = cellStep g k d ?c"
    by (intro cellStep_noop) simp
  then show ?thesis by (simp add: updateDetections_nth[OF k])
qed

text \<open>
  The confidence after \<open>updateDetections\<close> is the greatest of the confidence after
  the reset step and the adjusted confidences of the detections whose candidate range
  holds the cell.
\<close>

lemma updateDetections_greatest:
  assumes "k < length (cells g)"
  shows "greatestOf (confidence (cells (updateDetections g ds) ! k))
           (insert (startConfidence (cells g ! k))
              {adjustedConfidence (cells g ! k) d | d. d \<in> set ds \<and> k \<in> set (affectedCells g d)})"
proof -
  let ?c = "resetCell (cells g ! k)"
  let ?v = "confidence (cellRun g k ds ?c)"
  have eq: "cells (updateDetections g ds) ! k = cellRun g k ds ?c"
    using assms by (rule updateDetections_nth)
  have mem: "?v \<in> insert (startConfidence (cells g ! k))
              {adjustedConfidence (cells g ! k) d | d. d \<in> set ds \<and> k \<in> set (affectedCells g d)}"
    using cellRun_attained[of g k ds ?c] by (auto simp: confidence_resetCell)
  have up1: "\<not> jgt (startConfidence (cells g ! k)) ?v"
    using cellRun_mono[of g k ds ?c] by (auto simp: confidence_resetCell dest: jgt_asym)
  have up2: "\<And>d. d \<in> set ds \<Longrightarrow> k \<in> set (affectedCells g d) \<Longrightarrow>
               \<not> jgt (adjustedConfidence (cells g ! k) d) ?v"
    using cellRun_upper[of _ ds k g ?c] by simp
  show ?thesis unfolding eq greatestOf_def using mem up1 up2 by auto
qed

lemma greatestOf_Num_Max:
  assumes "finite R" "greatestOf v (Num ` R)"
  shows "v = Num (Max R)"
proof -
  from assms(2) obtain r where r: "r \<in> R" "v = Num r" and up: "\<forall>a \<in> R. \<not> r < a"
    unfolding greatestOf_def by auto
  have "Max R = r"
    using assms(1) r(1) up by (intro Max_eqI) (auto simp: not_less)
  with r show ?thesis by simp
qed

text \<open>
  Two runs of the same detections over the same rectangle, started at different
  confidences, meet at the first detection that either adopts above 0.1; if there is
  none, the run from the higher confidence never changes the state.
\<close>

lemma mapCell_adopt_same:
  assumes u: "unmapped c = unmapped c'"
    and a: "jgt (adjustedConfidence c d) (confidence c)" "jgt (adjustedConfidence c d) (confidence c')"
    and hi: "jgt (adjustedConfidence c d) (lit (1 / 10))"
  shows "mapCell d c' = mapCell d c"
proof (rule cell_eqI)
  have adj: "adjustedConfidence c' d = adjustedConfidence c d"
    using u by (metis adjustedConfidence_cong)
  show "unmapped (mapCell d c') = unmapped (mapCell d c)" using u by simp
  show "state (mapCell d c') = state (mapCell d c)" using a hi by (simp add: state_mapCell adj)
  show "confidence (mapCell d c') = confidence (mapCell d c)" using a by (simp add: confidence_mapCell adj)
  show "detection (mapCell d c') = detection (mapCell d c)" using a by (simp add: mapCell_def Let_def adj)
qed

lemma cellRun_converge:
  assumes "unmapped c = unmapped c'" "jle (confidence c') (confidence c)"
  shows "cellRun g k ds c' = cellRun g k ds c \<or>
         (state (cellRun g k ds c) = state c \<and>
          (jle (confidence c) (lit (1 / 10)) \<longrightarrow> state (cellRun g k ds c') = state c'))"
  using assms
proof (induction ds arbitrary: c c')
  case Nil
  then show ?case by simp
next
  case (Cons d ds)
  let ?a = "adjustedConfidence c d"
  have adj: "adjustedConfidence c' d = ?a"
    using Cons.prems(1) by (metis adjustedConfidence_cong)
  have nn: "confidence c \<noteq> NaN" "confidence c' \<noteq> NaN"
    using Cons.prems(2) by (auto simp: jle_def)
  show ?case
  proof (cases "k \<in> set (affectedCells g d)")
    case False
    then have "cellStep g k d c = c" "cellStep g k d c' = c'" by (simp_all add: cellStep_def)
    with Cons.IH[OF Cons.prems] show ?thesis by simp
  next
    case cand: True
    then have s: "cellStep g k d c = mapCell d c" "cellStep g k d c' = mapCell d c'"
      by (simp_all add: cellStep_def)
    show ?thesis
    proof (cases "jgt ?a (confidence c)")
      case up: True
      then have up': "jgt ?a (confidence c')" using Cons.prems(2) by (rule jle_jgt_trans[rotated])
      show ?thesis
      proof (cases "jgt ?a (lit (1 / 10))")
        case True
        have "mapCell d c' = mapCell d c"
          using Cons.prems(1) up up' True by (rule mapCell_adopt_same)
        then show ?thesis by (simp add: s)
      next
        case False
        have u: "unmapped (mapCell d c) = unmapped (mapCell d c')" using Cons.prems(1) by simp
        have an: "?a \<noteq> NaN" using up by auto
        have cf: "confidence (mapCell d c) = ?a" "confidence (mapCell d c') = ?a"
          using up up' by (simp_all add: confidence_mapCell adj)
        have le: "jle (confidence (mapCell d c')) (confidence (mapCell d c))"
          unfolding cf using an by (rule jle_refl)
        have st: "state (mapCell d c) = state c" "state (mapCell d c') = state c'"
          using False by (simp_all add: state_mapCell adj)
        have low: "jle (confidence (mapCell d c)) (lit (1 / 10))"
          unfolding cf using False an by (simp add: jle_iff)
        from Cons.IH[OF u le] low show ?thesis unfolding cellRun_Cons s st by blast
      qed
    next
      case noup: False
      then have c: "mapCell d c = c" by (simp add: mapCell_def Let_def)
      have u: "unmapped c = unmapped (mapCell d c')" using Cons.prems(1) by simp
      have le: "jle (confidence (mapCell d c')) (confidence c)"
      proof (cases "jgt ?a (confidence c')")
        case True
        then have "confidence (mapCell d c') = ?a" by (simp add: confidence_mapCell adj)
        moreover have "jle ?a (confidence c)" using True noup nn(1) by (rule not_jgt_jle)
        ultimately show ?thesis by simp
      next
        case False
        then show ?thesis using Cons.prems(2) by (simp add: confidence_mapCell adj)
      qed
      have st: "jle (confidence c) (lit (1 / 10)) \<Longrightarrow> state (mapCell d c') = state c'"
      proof -
        assume low: "jle (confidence c) (lit (1 / 10))"
        have "\<not> (jgt ?a (confidence c') \<and> jgt ?a (lit (1 / 10)))"
        proof
          assume h: "jgt ?a (confidence c') \<and> jgt ?a (lit (1 / 10))"
          then have "jgt ?a (confidence c)" using low by (blast intro: jle_jgt_trans)
          with noup show False by simp
        qed
        then show ?thesis by (auto simp add: state_mapCell adj)
      qed
      from Cons.IH[OF u le] st show ?thesis unfolding cellRun_Cons s c by auto
    qed
  qed
qed

lemma cellRun_reset_idem:
  "cellRun g k ds (resetCell (cellRun g k ds (resetCell c))) = cellRun g k ds (resetCell c)"
proof -
  let ?c1 = "cellRun g k ds (resetCell c)"
  show ?thesis
  proof (cases "state ?c1 = Inactive")
    case True
    have "cellRun g k ds ?c1 = ?c1"
    proof (rule cellRun_fixed)
      fix d assume "d \<in> set ds" "k \<in> set (affectedCells g d)"
      then have "\<not> jgt (adjustedConfidence (resetCell c) d) (confidence ?c1)"
        by (rule cellRun_upper)
      then show "\<not> jgt (adjustedConfidence ?c1 d) (confidence ?c1)" by simp
    qed
    then show ?thesis using True by (simp add: resetCell_inactive)
  next
    case False
    then have r1: "resetCell ?c1 = (unmapped c)\<lparr>state := Active\<rparr>"
      by (simp add: resetCell_unmapped)
    show ?thesis
    proof (cases "state c = Inactive")
      case False
      then have "resetCell c = (unmapped c)\<lparr>state := Active\<rparr>" by (rule resetCell_unmapped)
      with r1 show ?thesis by simp
    next
      case True
      then have rc: "resetCell c = c" by (rule resetCell_inactive)
      let ?r = "(unmapped c)\<lparr>state := Active\<rparr>"
      have u: "unmapped c = unmapped ?r" by simp
      have cr: "confidence ?r = Num 0" by (simp add: unmapped_def)
      have sr: "state ?r = Active" by simp
      from False have moved: "state (cellRun g k ds c) \<noteq> state c" using True rc by simp
      have "cellRun g k ds ?r = cellRun g k ds c"
      proof (cases "confidence c = NaN")
        case True
        have "cellRun g k ds c = c"
          by (rule cellRun_fixed) (simp add: True)
        with moved show ?thesis by simp
      next
        case nn: False
        have "Num 0 \<noteq> NaN" by simp
        from jle_total[OF nn this] show ?thesis
        proof
          assume "jle (confidence c) (Num 0)"
          then have le: "jle (confidence c) (confidence ?r)" by (simp add: cr)
          have low: "jle (confidence ?r) (lit (1 / 10))" by (simp add: cr lit_thresholds)
          from cellRun_converge[OF u[symmetric] le, of g k ds] low moved
          show ?thesis by auto
        next
          assume "jle (Num 0) (confidence c)"
          then have le: "jle (confidence ?r) (confidence c)" by (simp add: cr)
          from cellRun_converge[OF u le, of g k ds] moved
          show ?thesis by auto
        qed
      qed
      then show ?thesis using r1 unfolding rc by simp
    qed
  qed
qed

text \<open>A detection whose box holds a NaN has no candidate cell.\<close>

lemma getCells_NaN:
  "getCellsInBoundingBox g NaN by bw bh = []"
  "getCellsInBoundingBox g bx NaN bw bh = []"
  "getCellsInBoundingBox g bx by NaN bh = []"
  "getCellsInBoundingBox g bx by bw NaN = []"
  by (simp_all add: getCellsInBoundingBox_def Let_def)

lemma affectedCells_NaN: "hasNaN (bbox d) \<Longrightarrow> affectedCells g d = []"
  by (auto simp: hasNaN_def affectedCells_def getCells_NaN split: prod.splits)

lemma mapDetectionToGrid_NaN: "hasNaN (bbox d) \<Longrightarrow> mapDetectionToGrid g d = g"
  by (simp add: mapDetectionToGrid_def affectedCells_NaN)

lemma updateDetections_NaN:
  assumes "hasNaN (bbox d)"
  shows "cells (updateDetections g (ds1 @ d # ds2)) = cells (updateDetections g (ds1 @ ds2))"
proof (rule nth_equalityI)
  show "length (cells (updateDetections g (ds1 @ d # ds2))) = length (cells (updateDetections g (ds1 @ ds2)))"
    by simp
  fix k assume "k < length (cells (updateDetections g (ds1 @ d # ds2)))"
  then have k: "k < length (cells g)" by simp
  have "cellStep g k d = (\<lambda>c. c)"
    by (intro ext) (simp add: cellStep_def affectedCells_NaN[OF assms])
  then show "cells (updateDetections g (ds1 @ d # ds2)) ! k = cells (updateDetections g (ds1 @ ds2)) ! k"
    by (simp add: updateDetections_nth[OF k] cellRun_append)
qed

section \<open>The cells of a new grid\<close>

lemma createGrid_length [simp]:
  "length (cells (createGrid g)) = nat (gridSize g * gridSize g)"
  by (simp add: createGrid_def calculateCellPositions_def Let_def)

lemma createGrid_nth:
  assumes "0 < gridSize g" "k < nat (gridSize g * gridSize g)"
  shows "cells (createGrid g) ! k = freshCell (gridSize g) (canvasWidth g) (canvasHeight g) k"
  using assms
  by (simp add: createGrid_def calculateCellPositions_def Let_def newCell_def freshCell_def)

lemma createGrid_frame [simp]:
  "gridSize (createGrid g) = gridSize g"
  "canvasWidth (createGrid g) = canvasWidth g"
  "canvasHeight (createGrid g) = canvasHeight g"
  "activeCells (createGrid g) = activeCells g"
  "detections (createGrid g) = detections g"
  by (simp_all add: createGrid_def calculateCellPositions_def Let_def)

lemma setGridSize_length [simp]: "length (cells (setGridSize g n)) = nat (n * n)"
  by (simp add: setGridSize_def)

lemma setGridSize_nth:
  assumes "0 < n" "k < nat (n * n)"
  shows "cells (setGridSize g n) ! k = freshCell n (canvasWidth g) (canvasHeight g) k"
  unfolding setGridSize_def using assms by (subst createGrid_nth) simp_all

lemma setGridSize_frame [simp]:
  "gridSize (setGridSize g n) = n"
  "canvasWidth (setGridSize g n) = canvasWidth g"
  "canvasHeight (setGridSize g n) = canvasHeight g"
  "activeCells (setGridSize g n) = activeCells g"
  "detections (setGridSize g n) = detections g"
  by (simp_all add: setGridSize_def)

lemma freshCell_fields [simp]:
  "cellX (freshCell n w h k) = jmul (Num (of_int (int k mod n))) (jdiv w (Num (of_int n)))"
  "cellY (freshCell n w h k) = jmul (Num (of_int (int k div n))) (jdiv h (Num (of_int n)))"
  "cellW (freshCell n w h k) = jdiv w (Num (of_int n))"
  "cellH (freshCell n w h k) = jdiv h (Num (of_int n))"
  "state (freshCell n w h k) = Inactive"
  "confidence (freshCell n w h k) = Num 0"
  "detection (freshCell n w h k) = None"
  "row (freshCell n w h k) = int k div n"
  "col (freshCell n w h k) = int k mod n"
  by (simp_all add: freshCell_def)

lemma resize_frame [simp]:
  "gridSize (resize g r) = gridSize g"
  "canvasWidth (resize g (Some (w, h))) = w"
  "canvasHeight (resize g (Some (w, h))) = h"
  "resize g None = g"
  by (simp_all add: resize_def calculateCellPositions_def Let_def split: option.splits)

lemma calculateCellPositions_frame [simp]:
  "gridSize (calculateCellPositions g) = gridSize g"
  "canvasWidth (calculateCellPositions g) = canvasWidth g"
  "canvasHeight (calculateCellPositions g) = canvasHeight g"
  "length (cells (calculateCellPositions g)) = length (cells g)"
  by (simp_all add: calculateCellPositions_def Let_def)

lemma gridManager_frame:
  "n \<noteq> 0 \<Longrightarrow> gridSize (gridManager n (Some (w, h))) = n"
  "canvasWidth (gridManager n (Some (w, h))) = w"
  "canvasHeight (gridManager n (Some (w, h))) = h"
  by (simp_all add: gridManager_def)

lemma gridManager_length: "n \<noteq> 0 \<Longrightarrow> length (cells (gridManager n (Some (w, h)))) = nat (n * n)"
  by (simp add: gridManager_def)

lemma gridManager_nth:
  assumes "0 < n" "k < nat (n * n)"
  shows "cells (gridManager n (Some (w, h))) ! k = freshCell n w h k"
  unfolding gridManager_def using assms
  by (subst createGrid_nth) simp_all

lemma activateCell_frame [simp]:
  "gridSize (activateCell g i now) = gridSize g"
  "canvasWidth (activateCell g i now) = canvasWidth g"
  "canvasHeight (activateCell g i now) = canvasHeight g"
  "length (cells (activateCell g i now)) = length (cells g)"
  by (simp_all add: activateCell_def)

lemma activateCells_frame [simp]:
  "gridSize (activateCells g ks now) = gridSize g"
  "canvasWidth (activateCells g ks now) = canvasWidth g"
  "canvasHeight (activateCells g ks now) = canvasHeight g"
  "length (cells (activateCells g ks now)) = length (cells g)"
  unfolding activateCells_def by (induction ks arbitrary: g) simp_all

lemma activateCell_nth:
  "k < length (cells g) \<Longrightarrow>
   cells (activateCell g i now) ! k =
     (if k = i then (cells g ! k)\<lparr>state := Active, lastUpdate := now, animationStartTime := Some now\<rparr>
      else cells g ! k)"
  by (simp add: activateCell_def)

lemma activateCells_nth:
  "k < length (cells g) \<Longrightarrow>
   cells (activateCells g ks now) ! k =
     (if k \<in> set ks
      then (cells g ! k)\<lparr>state := Active, lastUpdate := now, animationStartTime := Some now\<rparr>
      else cells g ! k)"
proof (induction ks arbitrary: g)
  case Nil
  then show ?case by (simp add: activateCells_def)
next
  case (Cons i ks)
  have k: "k < length (cells (activateCell g i now))" using Cons.prems by simp
  have "activateCells g (i # ks) now = activateCells (activateCell g i now) ks now"
    by (simp add: activateCells_def)
  then show ?case using Cons.IH[OF k] Cons.prems by (simp add: activateCell_nth)
qed

lemma activateCells_Nil [simp]: "activateCells g [] now = g"
  by (simp add: activateCells_def)

lemma deactivateCell_frame [simp]:
  "gridSize (deactivateCell g i) = gridSize g"
  "canvasWidth (deactivateCell g i) = canvasWidth g"
  "canvasHeight (deactivateCell g i) = canvasHeight g"
  "length (cells (deactivateCell g i)) = length (cells g)"
  by (simp_all add: deactivateCell_def)


text \<open>
  A canvas whose width and height are integer multiples \<open>n * a\<close> and \<open>n * b\<close> of
  the grid size: the divisions and products of \<open>calculateCellPositions\<close> are exact, a
  cell is \<open>a\<close> wide and \<open>b\<close> high, and it lies at \<open>(col * a, row * b)\<close>.
\<close>

lemma index_bounds:
  fixes n :: int
  assumes "0 < n" "k < nat (n * n)"
  shows "0 \<le> int k mod n" "int k mod n < n" "0 \<le> int k div n" "int k div n < n"
proof -
  show c: "0 \<le> int k mod n" "int k mod n < n" using assms(1) by simp_all
  show "0 \<le> int k div n" using assms(1) by (simp add: pos_imp_zdiv_nonneg_iff)
  have kn: "int k < n * n" using assms by simp
  show "int k div n < n"
  proof (rule ccontr)
    assume "\<not> int k div n < n"
    then have "n * n \<le> (int k div n) * n" using assms(1) by (intro mult_right_mono) simp_all
    moreover have "int k = (int k div n) * n + int k mod n" by simp
    ultimately show False using c(1) kn by linarith
  qed
qed

lemma exact_quotient:
  fixes n a :: int
  assumes "0 < n" "0 \<le> a" "n * a \<le> 2 ^ 25"
  shows "jdiv (Num (of_int (n * a))) (Num (of_int n)) = Num (of_int a)"
proof -
  have "a \<le> n * a" using assms(1,2) by (simp add: mult_le_cancel_right1)
  then have "\<bar>a\<bar> < 2 ^ 53" using assms(2,3) by simp
  then have "rnd (of_int a) = Num (of_int a)" by (rule rnd_int)
  moreover have "(of_int (n * a) :: real) / of_int n = of_int a" using assms(1) by simp
  ultimately show ?thesis using assms(1) by simp
qed

lemma exact_position:
  fixes n a j :: int
  assumes "0 < n" "0 \<le> a" "n * a \<le> 2 ^ 25" "0 \<le> j" "j < n"
  shows "jmul (Num (of_int j)) (Num (of_int a)) = Num (of_int (j * a))"
    and "jadd (Num (of_int (j * a))) (Num (of_int a)) = Num (of_int (j * a + a))"
    and "0 \<le> j * a" "j * a + a \<le> n * a"
proof -
  show nn: "0 \<le> j * a" using assms by simp
  have "j * a + a = (j + 1) * a" by (simp add: algebra_simps)
  also have "\<dots> \<le> n * a" using assms by (intro mult_right_mono) simp_all
  finally show le: "j * a + a \<le> n * a" .
  have "j * a \<le> j * a + a" using assms(2) by simp
  with le nn assms(3) have "\<bar>j * a\<bar> < 2 ^ 53" by simp
  from rnd_int[OF this] show "jmul (Num (of_int j)) (Num (of_int a)) = Num (of_int (j * a))"
    by simp
  from le nn assms(2,3) have "\<bar>j * a + a\<bar> < 2 ^ 53" by simp
  from rnd_int[OF this] show "jadd (Num (of_int (j * a))) (Num (of_int a)) = Num (of_int (j * a + a))"
    by simp
qed

lemma freshCell_exact:
  fixes n a b :: int
  assumes n: "0 < n" and a: "0 \<le> a" "n * a \<le> 2 ^ 25" and b: "0 \<le> b" "n * b \<le> 2 ^ 25"
    and k: "k < nat (n * n)"
  shows "cellW (freshCell n (Num (of_int (n * a))) (Num (of_int (n * b))) k) = Num (of_int a)"
    and "cellH (freshCell n (Num (of_int (n * a))) (Num (of_int (n * b))) k) = Num (of_int b)"
    and "cellX (freshCell n (Num (of_int (n * a))) (Num (of_int (n * b))) k) =
           Num (of_int (int k mod n * a))"
    and "cellY (freshCell n (Num (of_int (n * a))) (Num (of_int (n * b))) k) =
           Num (of_int (int k div n * b))"
proof -
  note i = index_bounds[OF n k]
  show "cellW (freshCell n (Num (of_int (n * a))) (Num (of_int (n * b))) k) = Num (of_int a)"
    unfolding freshCell_fields by (rule exact_quotient[OF n a])
  show "cellH (freshCell n (Num (of_int (n * a))) (Num (of_int (n * b))) k) = Num (of_int b)"
    unfolding freshCell_fields by (rule exact_quotient[OF n b])
  show "cellX (freshCell n (Num (of_int (n * a))) (Num (of_int (n * b))) k) =
           Num (of_int (int k mod n * a))"
    unfolding freshCell_fields exact_quotient[OF n a] by (rule exact_position(1)[OF n a i(1,2)])
  show "cellY (freshCell n (Num (of_int (n * a))) (Num (of_int (n * b))) k) =
           Num (of_int (int k div n * b))"
    unfolding freshCell_fields exact_quotient[OF n b] by (rule exact_position(1)[OF n b i(3,4)])
qed

text \<open>
  Along one axis the cell of column \<open>j\<close> holds exactly the points whose quotient by the
  cell width has the floor \<open>j\<close>; an index below \<open>n * n\<close> is a pair of a row and a column
  below \<open>n\<close>.
\<close>

lemma strip_iff:
  fixes c p :: real
  assumes "0 < c"
  shows "(of_int j * c \<le> p \<and> p < of_int j * c + c) \<longleftrightarrow> j = \<lfloor>p / c\<rfloor>"
proof -
  have a: "of_int j * c \<le> p \<longleftrightarrow> of_int j \<le> p / c"
    using assms by (simp add: pos_le_divide_eq)
  have "of_int j * c + c = (of_int j + 1) * c" by (simp add: algebra_simps)
  then have b: "p < of_int j * c + c \<longleftrightarrow> p / c < of_int j + 1"
    using assms by (simp add: pos_divide_less_eq)
  show ?thesis unfolding a b using floor_eq_iff[of "p / c" j] by auto
qed

lemma inCell_exact:
  fixes n a b :: int
  assumes n: "0 < n" and a: "0 \<le> a" "n * a \<le> 2 ^ 25" and b: "0 \<le> b" "n * b \<le> 2 ^ 25"
    and k: "k < nat (n * n)"
  shows "inCell (freshCell n (Num (of_int (n * a))) (Num (of_int (n * b))) k) px py \<longleftrightarrow>
           (of_int (int k mod n) * of_int a \<le> px \<and>
            px < of_int (int k mod n) * of_int a + of_int a) \<and>
           (of_int (int k div n) * of_int b \<le> py \<and>
            py < of_int (int k div n) * of_int b + of_int b)"
proof -
  note i = index_bounds[OF n k]
  note f = freshCell_exact[OF n a b k]
  show ?thesis
    unfolding inCell_def f exact_position(2)[OF n a i(1,2)] exact_position(2)[OF n b i(3,4)]
    by (simp add: conj_assoc)
qed

lemma index_unique:
  fixes n :: int
  assumes n: "0 < n" and c: "0 \<le> c" "c < n" and r: "0 \<le> r" "r < n"
  shows "\<exists>!k. k < nat (n * n) \<and> int k mod n = c \<and> int k div n = r"
proof (rule ex1I[of _ "nat (r * n + c)"])
  have nn: "0 \<le> r * n + c" using c r n by simp
  have "r * n + c < n * n"
  proof -
    have "r * n + c < r * n + n" using c by simp
    also have "\<dots> = (r + 1) * n" by (simp add: algebra_simps)
    also have "\<dots> \<le> n * n" using r n by (intro mult_right_mono) auto
    finally show ?thesis .
  qed
  then have lt: "nat (r * n + c) < nat (n * n)" using nn by simp
  have m: "(r * n + c) mod n = c" using c by simp
  have d: "(r * n + c) div n = r" using c n by simp
  show "nat (r * n + c) < nat (n * n) \<and> int (nat (r * n + c)) mod n = c \<and>
        int (nat (r * n + c)) div n = r"
    using lt nn m d by simp
next
  fix k assume k: "k < nat (n * n) \<and> int k mod n = c \<and> int k div n = r"
  have "int k = (int k div n) * n + int k mod n" by simp
  with k have "int k = r * n + c" by simp
  then show "k = nat (r * n + c)" by simp
qed

lemma floor_index_range:
  fixes n a :: int and p :: real
  assumes "0 < n" "0 \<le> p" "p < of_int (n * a)"
  shows "0 \<le> \<lfloor>p / of_int a\<rfloor>" "\<lfloor>p / of_int a\<rfloor> < n"
proof -
  have "0 < n * a" using assms(2,3) by (simp add: of_int_0_less_iff[symmetric] del: of_int_0_less_iff of_int_mult)
  then have a: "0 < a" using assms(1) by (simp add: zero_less_mult_iff)
  have "0 \<le> p / of_int a" using assms a by simp
  then show "0 \<le> \<lfloor>p / of_int a\<rfloor>" by simp
  have "p / of_int a < of_int n" using assms(3) a by (simp add: pos_divide_less_eq)
  then show "\<lfloor>p / of_int a\<rfloor> < n" by (simp add: floor_less_iff)
qed

lemma setGridSize_tiles:
  fixes n a b :: int
  assumes n: "0 < n" and a: "0 \<le> a" "n * a \<le> 2 ^ 25" and b: "0 \<le> b" "n * b \<le> 2 ^ 25"
    and cw: "canvasWidth g = Num (of_int (n * a))" and ch: "canvasHeight g = Num (of_int (n * b))"
    and p: "0 \<le> px" "px < of_int (n * a)" "0 \<le> py" "py < of_int (n * b)"
  shows "\<exists>!k. k < nat (n * n) \<and> inCell (cells (setGridSize g n) ! k) px py"
proof -
  have "0 < n * a" using p(1,2) by (simp add: of_int_0_less_iff[symmetric] del: of_int_0_less_iff of_int_mult)
  then have a0: "0 < a" using n by (simp add: zero_less_mult_iff)
  have "0 < n * b" using p(3,4) by (simp add: of_int_0_less_iff[symmetric] del: of_int_0_less_iff of_int_mult)
  then have b0: "0 < b" using n by (simp add: zero_less_mult_iff)
  have ra: "(0::real) < of_int a" and rb: "(0::real) < of_int b" using a0 b0 by simp_all
  let ?c = "\<lfloor>px / of_int a\<rfloor>" and ?r = "\<lfloor>py / of_int b\<rfloor>"
  have eq: "k < nat (n * n) \<and> inCell (cells (setGridSize g n) ! k) px py \<longleftrightarrow>
            k < nat (n * n) \<and> int k mod n = ?c \<and> int k div n = ?r" for k
  proof (cases "k < nat (n * n)")
    case True
    show ?thesis
      unfolding setGridSize_nth[OF n True] cw ch inCell_exact[OF n a b True]
        strip_iff[OF ra] strip_iff[OF rb] by simp
  next
    case False
    then show ?thesis by simp
  qed
  have "\<exists>!k. k < nat (n * n) \<and> int k mod n = ?c \<and> int k div n = ?r"
    using n floor_index_range[OF n p(1,2)] floor_index_range[OF n p(3,4)]
    by (rule index_unique)
  then show ?thesis unfolding eq .
qed

lemma setGridSize_inside:
  fixes n a b :: int
  assumes n: "0 < n" and a: "0 \<le> a" "n * a \<le> 2 ^ 25" and b: "0 \<le> b" "n * b \<le> 2 ^ 25"
    and cw: "canvasWidth g = Num (of_int (n * a))" and ch: "canvasHeight g = Num (of_int (n * b))"
    and k: "k < nat (n * n)" and i: "inCell (cells (setGridSize g n) ! k) px py"
  shows "0 \<le> px \<and> px < of_int (n * a) \<and> 0 \<le> py \<and> py < of_int (n * b)"
proof -
  note ix = index_bounds[OF n k]
  from i have i': "(of_int (int k mod n) * of_int a \<le> px \<and>
            px < of_int (int k mod n) * of_int a + of_int a) \<and>
           (of_int (int k div n) * of_int b \<le> py \<and>
            py < of_int (int k div n) * of_int b + of_int b)"
    unfolding setGridSize_nth[OF n k] cw ch inCell_exact[OF n a b k] .
  have axis: "0 \<le> p \<and> p < of_int (n * e)"
    if "0 \<le> e" "0 \<le> j" "j < n" "of_int j * of_int e \<le> p" "p < of_int j * of_int e + of_int e"
    for j e :: int and p :: real
  proof -
    have "(0::real) \<le> of_int (j * e)" using that(1,2) by simp
    then have p0: "0 \<le> p" using that(4) by simp
    have "j * e + e = (j + 1) * e" by (simp add: algebra_simps)
    also have "\<dots> \<le> n * e" using that(1,3) by (intro mult_right_mono) simp_all
    finally have "(of_int (j * e + e) :: real) \<le> of_int (n * e)" by (simp only: of_int_le_iff)
    then have "p < of_int (n * e)" using that(5) by simp
    with p0 show ?thesis by simp
  qed
  from axis[OF a(1) ix(1,2)] axis[OF b(1) ix(3,4)] i' show ?thesis by blast
qed

text \<open>The areas of the cells add up without rounding.\<close>

lemma jsum_replicate:
  fixes c :: real
  assumes "c \<in> \<int>" "0 \<le> c" "of_nat m * c < 2 ^ 53"
  shows "foldr jadd (replicate m (Num c)) (Num 0) = Num (of_nat m * c)"
  using assms(3)
proof (induction m)
  case 0
  then show ?case by simp
next
  case (Suc m)
  have le: "of_nat m * c \<le> of_nat (Suc m) * c" using assms(2) by (simp add: algebra_simps)
  with Suc.prems have "of_nat m * c < 2 ^ 53" by simp
  from Suc.IH[OF this] have "foldr jadd (replicate (Suc m) (Num c)) (Num 0) =
      jadd (Num c) (Num (of_nat m * c))" by simp
  also have "\<dots> = Num (c + of_nat m * c)"
  proof (rule jadd_Ints)
    show "c \<in> \<int>" by (rule assms(1))
    show "of_nat m * c \<in> \<int>" using assms(1) by simp
    have "0 \<le> of_nat m * c" using assms(2) by simp
    then show "\<bar>c + of_nat m * c\<bar> < 2 ^ 53" using Suc.prems assms(2) by (simp add: algebra_simps)
  qed
  finally show ?case by (simp add: algebra_simps)
qed

lemma setGridSize_area:
  fixes n a b :: int
  assumes n: "0 < n" and a: "0 \<le> a" "n * a \<le> 2 ^ 25" and b: "0 \<le> b" "n * b \<le> 2 ^ 25"
    and cw: "canvasWidth g = Num (of_int (n * a))" and ch: "canvasHeight g = Num (of_int (n * b))"
  shows "foldr jadd (map cellArea (cells (setGridSize g n))) (Num 0) =
           Num (of_int (n * a) * of_int (n * b))"
proof -
  have ab: "a * b \<le> (n * a) * (n * b)"
    using n a(1) b(1) by (intro mult_mono) (simp_all add: mult_le_cancel_right1)
  have "(n * a) * (n * b) \<le> 2 ^ 25 * 2 ^ 25" using n a b by (intro mult_mono) simp_all
  then have big: "(n * a) * (n * b) \<le> 2 ^ 50" by simp
  have "\<bar>a * b\<bar> < 2 ^ 53" using ab big a(1) b(1) by simp
  then have area: "jmul (Num (of_int a)) (Num (of_int b)) = Num (of_int (a * b))"
    using rnd_int[of "a * b"] by simp
  have "map cellArea (cells (setGridSize g n)) = replicate (nat (n * n)) (Num (of_int (a * b)))"
  proof (rule nth_equalityI)
    show "length (map cellArea (cells (setGridSize g n))) =
          length (replicate (nat (n * n)) (Num (of_int (a * b))))" by simp
    fix k assume "k < length (map cellArea (cells (setGridSize g n)))"
    then have k: "k < nat (n * n)" by simp
    have "cellArea (cells (setGridSize g n) ! k) = Num (of_int (a * b))"
      unfolding setGridSize_nth[OF n k] cw ch cellArea_def
        freshCell_exact(1,2)[OF n a b k] by (rule area)
    then show "map cellArea (cells (setGridSize g n)) ! k =
               replicate (nat (n * n)) (Num (of_int (a * b))) ! k"
      using k by simp
  qed
  moreover have "foldr jadd (replicate (nat (n * n)) (Num (of_int (a * b)))) (Num 0) =
                 Num (of_nat (nat (n * n)) * of_int (a * b))"
  proof (rule jsum_replicate)
    show "(of_int (a * b) :: real) \<in> \<int>" by simp
    show "(0::real) \<le> of_int (a * b)" using a(1) b(1) by simp
    have "(of_nat (nat (n * n)) :: real) * of_int (a * b) = of_int ((n * a) * (n * b))"
      using n by (simp add: algebra_simps)
    also have "\<dots> \<le> of_int (2 ^ 50)" using big by (simp only: of_int_le_iff)
    also have "\<dots> < (2 ^ 53 :: real)" by simp
    finally show "(of_nat (nat (n * n)) :: real) * of_int (a * b) < 2 ^ 53" .
  qed
  moreover have "(of_nat (nat (n * n)) :: real) * of_int (a * b) = of_int (n * a) * of_int (n * b)"
    using n by (simp add: algebra_simps)
  ultimately show ?thesis by simp
qed

section \<open>Confidences and the interval from 0 to 1\<close>





























section \<open>A frame with a malformed detection\<close>

lemma formatDetection_missing: "rawBbox r = None \<Longrightarrow> formatDetection r f = Inl TypeError"
  by (simp add: formatDetection_def)

lemma formatDetection_present:
  "rawBbox r = Some b \<Longrightarrow> \<exists>d. formatDetection r f = Inr d"
  by (simp add: formatDetection_def)

lemma formatDetection_error: "formatDetection r f = Inl e \<Longrightarrow> e = TypeError \<and> rawBbox r = None"
  by (auto simp: formatDetection_def split: option.splits)

lemma formatAll_missing:
  "r \<in> set rs \<Longrightarrow> rawBbox r = None \<Longrightarrow> formatAll rs f = Inl TypeError"
proof (induction rs)
  case Nil
  then show ?case by simp
next
  case (Cons x rs)
  show ?case
  proof (cases "formatDetection x f")
    case (Inl e)
    then show ?thesis using formatDetection_error[OF Inl] by simp
  next
    case (Inr d)
    then have "rawBbox x \<noteq> None" by (auto simp: formatDetection_def split: option.splits)
    with Cons.prems have "r \<in> set rs" by auto
    from Cons.IH[OF this Cons.prems(2)] Inr show ?thesis by simp
  qed
qed

lemma formatAll_present:
  "\<forall>r \<in> set rs. rawBbox r \<noteq> None \<Longrightarrow> \<exists>ds. formatAll rs f = Inr ds \<and> length ds = length rs"
proof (induction rs)
  case Nil
  then show ?case by simp
next
  case (Cons x rs)
  then obtain b where "rawBbox x = Some b" by auto
  then obtain d where d: "formatDetection x f = Inr d" using formatDetection_present by blast
  from Cons obtain ds where "formatAll rs f = Inr ds" "length ds = length rs" by auto
  with d show ?case by simp
qed

lemma processFrame_missing:
  assumes "isRunning sim" "isModelLoaded sim" "r \<in> set raw" "rawBbox r = None"
    "jge (rawScore r) (confidenceThreshold sim)"
  shows "processFrame sim g f (Inr raw) = (sim, g, Some TypeError)"
proof -
  have "r \<in> set (filter (\<lambda>d. jge (rawScore d) (confidenceThreshold sim)) raw)"
    using assms by simp
  then have "formatAll (filter (\<lambda>d. jge (rawScore d) (confidenceThreshold sim)) raw) f = Inl TypeError"
    using assms(4) by (rule formatAll_missing)
  then have "postprocessDetections sim raw f = Inl TypeError"
    by (simp add: postprocessDetections_def)
  then show ?thesis using assms(1,2) by (simp add: processFrame_def)
qed

lemma processFrame_present:
  assumes "isRunning sim" "isModelLoaded sim"
    "\<forall>r \<in> set raw. jge (rawScore r) (confidenceThreshold sim) \<longrightarrow> rawBbox r \<noteq> None"
  shows "\<exists>ds. postprocessDetections sim raw f = Inr ds \<and>
              processFrame sim g f (Inr raw) = (sim\<lparr>lastDetections := ds\<rparr>, updateDetections g ds, None)"
proof -
  have "\<forall>r \<in> set (filter (\<lambda>d. jge (rawScore d) (confidenceThreshold sim)) raw). rawBbox r \<noteq> None"
    using assms(3) by simp
  from formatAll_present[OF this] obtain fs
    where "formatAll (filter (\<lambda>d. jge (rawScore d) (confidenceThreshold sim)) raw) f = Inr fs"
    by blast
  then have "postprocessDetections sim raw f = Inr (applyNMS sim (sortByScore fs))"
    by (simp add: postprocessDetections_def)
  then show ?thesis using assms(1,2) by (simp add: processFrame_def)
qed

section \<open>The example grids\<close>

lemma person_simps [simp]:
  "score (person s bx by bw bh) = lit s"
  "bbox (person s bx by bw bh) = (lit bx, lit by, lit bw, lit bh)"
  by (simp_all add: person_def)

lemma rawPerson_simps [simp]:
  "rawBbox (rawPerson s b) = b" "rawScore (rawPerson s b) = lit s" "rawClass (rawPerson s b) = ''person''"
  by (simp_all add: rawPerson_def)

lemma defaultSimulation_simps [simp]:
  "isRunning defaultSimulation" "isModelLoaded defaultSimulation"
  "confidenceThreshold defaultSimulation = lit (3 / 10)"
  "iouThreshold defaultSimulation = lit (1 / 2)"
  by (simp_all add: defaultSimulation_def)

lemma grid3_frame [simp]:
  "gridSize grid3 = 3" "canvasWidth grid3 = Num 300" "canvasHeight grid3 = Num 300"
  "length (cells grid3) = 9"
  by (simp_all add: grid3_def gridManager_frame gridManager_length)

lemma grid3_nth: "k < 9 \<Longrightarrow> cells grid3 ! k = freshCell 3 (Num 300) (Num 300) k"
  unfolding grid3_def by (rule gridManager_nth) simp_all

lemma grid7_frame [simp]:
  "gridSize grid7 = 7" "canvasWidth grid7 = Num 300" "canvasHeight grid7 = Num 300"
  "length (cells grid7) = 49"
  by (simp_all add: grid7_def gridManager_frame gridManager_length)


text \<open>
  The roundings in the candidate ranges of the example boxes on the 3 by 3 grid, such
  as \<open>50 / 300\<close> and \<open>(50 / 300) * 3\<close>.
\<close>

lemma grid3_roundings:
  "rnd (1 / 30) = Num (4803839602528529 / 144115188075855872)"
  "rnd (14411518807585587 / 144115188075855872) = Num (3602879701896397 / 36028797018963968)"
  "rnd (1 / 10) = Num (3602879701896397 / 36028797018963968)"
  "rnd (1 / 6) = Num (6004799503160661 / 36028797018963968)"
  "rnd (4 / 15) = Num (4803839602528529 / 18014398509481984)"
  "rnd (10808639105689191 / 36028797018963968) = Num (1351079888211149 / 4503599627370496)"
  "rnd (1 / 3) = Num (6004799503160661 / 18014398509481984)"
  "rnd (13 / 30) = Num (1951559838527215 / 4503599627370496)"
  "rnd (18014398509481983 / 36028797018963968) = Num (1 / 2)"
  "rnd (14411518807585587 / 18014398509481984) = Num (3602879701896397 / 4503599627370496)"
  "rnd (18014398509481983 / 18014398509481984) = Num 1"
  "rnd (5854679515581645 / 4503599627370496) = Num (5854679515581645 / 4503599627370496)"
proof -
  show "rnd (1 / 30) = Num (4803839602528529 / 144115188075855872)"
    using rnd_eval[of "1 / 30" 57 4803839602528529] by simp
  show "rnd (14411518807585587 / 144115188075855872) = Num (3602879701896397 / 36028797018963968)"
    using rnd_eval_gen[of "14411518807585587 / 144115188075855872" 56 7205759403792794] by (simp add: roundEven_def)
  show "rnd (1 / 10) = Num (3602879701896397 / 36028797018963968)"
    using rnd_eval[of "1 / 10" 56 7205759403792794] by simp
  show "rnd (1 / 6) = Num (6004799503160661 / 36028797018963968)"
    using rnd_eval[of "1 / 6" 55 6004799503160661] by simp
  show "rnd (4 / 15) = Num (4803839602528529 / 18014398509481984)"
    using rnd_eval[of "4 / 15" 54 4803839602528529] by simp
  show "rnd (10808639105689191 / 36028797018963968) = Num (1351079888211149 / 4503599627370496)"
    using rnd_eval_gen[of "10808639105689191 / 36028797018963968" 54 5404319552844596] by (simp add: roundEven_def)
  show "rnd (1 / 3) = Num (6004799503160661 / 18014398509481984)"
    using rnd_eval[of "1 / 3" 54 6004799503160661] by simp
  show "rnd (13 / 30) = Num (1951559838527215 / 4503599627370496)"
    using rnd_eval[of "13 / 30" 54 7806239354108860] by simp
  show "rnd (18014398509481983 / 36028797018963968) = Num (1 / 2)"
    using rnd_eval_gen[of "18014398509481983 / 36028797018963968" 54 9007199254740992] by (simp add: roundEven_def)
  show "rnd (14411518807585587 / 18014398509481984) = Num (3602879701896397 / 4503599627370496)"
    using rnd_eval_gen[of "14411518807585587 / 18014398509481984" 53 7205759403792794] by (simp add: roundEven_def)
  show "rnd (18014398509481983 / 18014398509481984) = Num 1"
    using rnd_eval_gen[of "18014398509481983 / 18014398509481984" 53 9007199254740992] by (simp add: roundEven_def)
  show "rnd (5854679515581645 / 4503599627370496) = Num (5854679515581645 / 4503599627370496)"
    using rnd_eval[of "5854679515581645 / 4503599627370496" 52 5854679515581645] by simp
qed

lemma affectedCells_3_300:
  assumes "gridSize g = 3" "canvasWidth g = Num 300" "canvasHeight g = Num 300"
  shows "affectedCells g (person s 50 50 80 80) = [0, 1, 3, 4]"
    and "affectedCells g (person s 0 0 30 30) = [0]"
    and "affectedCells g (person s 0 0 10 10) = [0]"
    and "affectedCells g (person s 0 0 80 100) = [0, 3]"
  using assms
  by (simp_all add: affectedCells_def getCellsInBoundingBox_def loopRange_def Let_def
        upto_rec1 grid3_roundings)

lemma act3_nth:
  "k < 9 \<Longrightarrow>
   cells (activateCells grid3 ks now) ! k =
     (if k \<in> set ks
      then (freshCell 3 (Num 300) (Num 300) k)
             \<lparr>state := Active, lastUpdate := now, animationStartTime := Some now\<rparr>
      else freshCell 3 (Num 300) (Num 300) k)"
  by (simp add: activateCells_nth grid3_nth)

lemma act3_affected:
  "affectedCells (activateCells grid3 ks now) (person s 50 50 80 80) = [0, 1, 3, 4]"
  by (rule affectedCells_3_300) simp_all

lemma act3_geometry:
  "cellX (cells (activateCells grid3 ks now) ! 0) = Num 0"
  "cellY (cells (activateCells grid3 ks now) ! 0) = Num 0"
  "cellW (cells (activateCells grid3 ks now) ! 0) = Num 100"
  "cellH (cells (activateCells grid3 ks now) ! 0) = Num 100"
  "cellX (cells (activateCells grid3 ks now) ! 8) = Num 200"
  "cellY (cells (activateCells grid3 ks now) ! 8) = Num 200"
  "cellW (cells (activateCells grid3 ks now) ! 8) = Num 100"
  "cellH (cells (activateCells grid3 ks now) ! 8) = Num 100"
  by (simp_all add: act3_nth)

lemma intersection_0:
  "calculateIntersection (cells (activateCells grid3 ks now) ! 0) (bbox (person s 50 50 80 80)) = Num 2500"
  by (simp add: calculateIntersection_def Let_def act3_geometry)

lemma intersection_8:
  "calculateIntersection (cells (activateCells grid3 ks now) ! 8) (bbox (person s 50 50 80 80)) = Num 0"
  by (simp add: calculateIntersection_def Let_def act3_geometry)

text \<open>
  The roundings in the adjusted confidences of the examples, such as \<open>900 / 10000\<close>
  and \<open>0.9 * 0.09\<close>, and the values of the decimals that the statements name.
\<close>

lemma adjusted_roundings:
  "rnd (46730671726813450782473491081855 / 5192296858534827628530496329220096) = Num (1297036692682703 / 144115188075855872)"
  "rnd (1 / 100) = Num (5764607523034235 / 576460752303423488)"
  "rnd (26286002846332564545176464496001 / 324518553658426726783156020576256) = Num (5836665117072163 / 72057594037927936)"
  "rnd (81 / 1000) = Num (5836665117072163 / 72057594037927936)"
  "rnd (9 / 100) = Num (3242591731706757 / 36028797018963968)"
  "rnd (9 / 40) = Num (8106479329266893 / 36028797018963968)"
  "rnd (8106479329266893 / 36028797018963968) = Num (8106479329266893 / 36028797018963968)"
  "rnd (1 / 4) = Num (1 / 4)"
  "rnd (25220157913274779 / 36028797018963968) = Num (6305039478318695 / 9007199254740992)"
  "rnd (4 / 5) = Num (3602879701896397 / 4503599627370496)"
proof -
  show "rnd (46730671726813450782473491081855 / 5192296858534827628530496329220096) = Num (1297036692682703 / 144115188075855872)"
    using rnd_eval[of "46730671726813450782473491081855 / 5192296858534827628530496329220096" 59 5188146770730812] by simp
  show "rnd (1 / 100) = Num (5764607523034235 / 576460752303423488)"
    using rnd_eval[of "1 / 100" 59 5764607523034235] by simp
  show "rnd (26286002846332564545176464496001 / 324518553658426726783156020576256) = Num (5836665117072163 / 72057594037927936)"
    using rnd_eval[of "26286002846332564545176464496001 / 324518553658426726783156020576256" 56 5836665117072163] by simp
  show "rnd (81 / 1000) = Num (5836665117072163 / 72057594037927936)"
    using rnd_eval[of "81 / 1000" 56 5836665117072163] by simp
  show "rnd (9 / 100) = Num (3242591731706757 / 36028797018963968)"
    using rnd_eval[of "9 / 100" 56 6485183463413514] by simp
  show "rnd (9 / 40) = Num (8106479329266893 / 36028797018963968)"
    using rnd_eval[of "9 / 40" 55 8106479329266893] by simp
  show "rnd (8106479329266893 / 36028797018963968) = Num (8106479329266893 / 36028797018963968)"
    using rnd_eval[of "8106479329266893 / 36028797018963968" 55 8106479329266893] by simp
  show "rnd (1 / 4) = Num (1 / 4)"
    using rnd_eval[of "1 / 4" 54 4503599627370496] by simp
  show "rnd (25220157913274779 / 36028797018963968) = Num (6305039478318695 / 9007199254740992)"
    using rnd_eval[of "25220157913274779 / 36028797018963968" 53 6305039478318695] by simp
  show "rnd (4 / 5) = Num (3602879701896397 / 4503599627370496)"
    using rnd_eval[of "4 / 5" 53 7205759403792794] by simp
qed

lemma fresh3_geometry:
  "cellX (freshCell 3 (Num 300) (Num 300) 0) = Num 0"
  "cellY (freshCell 3 (Num 300) (Num 300) 0) = Num 0"
  "cellW (freshCell 3 (Num 300) (Num 300) 0) = Num 100"
  "cellH (freshCell 3 (Num 300) (Num 300) 0) = Num 100"
  by simp_all

lemma adjusted_fresh0:
  "adjustedConfidence (freshCell 3 (Num 300) (Num 300) 0) (person (9 / 10) 0 0 30 30) = lit (81 / 1000)"
  "adjustedConfidence (freshCell 3 (Num 300) (Num 300) 0) (person (9 / 10) 0 0 10 10) =
     jmul (lit (9 / 10)) (lit (1 / 100))"
  "adjustedConfidence (freshCell 3 (Num 300) (Num 300) 0) (person (9 / 10) 50 50 80 80) = lit (9 / 40)"
  "adjustedConfidence (freshCell 3 (Num 300) (Num 300) 0) (person (7 / 8) 0 0 80 100) =
     Num (6305039478318695 / 9007199254740992)"
  unfolding adjustedConfidence_def calculateIntersection_def Let_def fresh3_geometry
  by (simp_all add: lit_def lit_nine_tenths[unfolded lit_def] lit_seven_eighths[unfolded lit_def]
        adjusted_roundings)

lemma adjusted_0:
  "adjustedConfidence (resetCell (cells (activateCells grid3 ks now) ! 0)) (person (9 / 10) 50 50 80 80)
     = lit (9 / 40)"
  unfolding adjustedConfidence_def calculateIntersection_def Let_def resetCell_geometry act3_geometry
  by (simp add: lit_def lit_nine_tenths[unfolded lit_def] adjusted_roundings)

lemma reset_conf_0:
  "confidence (resetCell (cells (activateCells grid3 ks now) ! 0)) = Num 0"
  by (simp add: act3_nth resetCell_def)

lemma example_orders:
  "jgt (lit (9 / 40)) (Num 0)" "jgt (lit (9 / 40)) (lit (1 / 10))"
  "\<not> jgt (lit (9 / 40)) (lit (4 / 10))" "\<not> jgt (lit (9 / 40)) (lit (7 / 10))"
  "jgt (lit (81 / 1000)) (Num 0)" "\<not> jgt (lit (81 / 1000)) (lit (1 / 10))"
  "jle (lit (81 / 1000)) (lit (1 / 10))"
  "jgt (jmul (lit (9 / 10)) (lit (1 / 100))) (Num 0)"
  "jlt (jmul (lit (9 / 10)) (lit (1 / 100))) (lit (81 / 1000))"
  "jgt (Num (6305039478318695 / 9007199254740992)) (lit (7 / 10))"
  "\<not> jgt (lit (9 / 40)) (lit (2 / 5))"
  by (simp_all add: lit_def lit_thresholds[unfolded lit_def] lit_nine_tenths[unfolded lit_def]
        adjusted_roundings)

lemma scenario_cell0:
  "cells (updateDetections (activateCells grid3 ks now) [person (9 / 10) 50 50 80 80]) ! 0 =
     (resetCell (cells (activateCells grid3 ks now) ! 0))
       \<lparr>confidence := lit (9 / 40), detection := Some (person (9 / 10) 50 50 80 80), state := Detecting\<rparr>"
proof -
  have "cells (updateDetections (activateCells grid3 ks now) [person (9 / 10) 50 50 80 80]) ! 0 =
        mapCell (person (9 / 10) 50 50 80 80) (resetCell (cells (activateCells grid3 ks now) ! 0))"
    by (simp add: updateDetections_single act3_affected)
  also have "\<dots> = (resetCell (cells (activateCells grid3 ks now) ! 0))
       \<lparr>confidence := lit (9 / 40), detection := Some (person (9 / 10) 50 50 80 80), state := Detecting\<rparr>"
    unfolding mapCell_def Let_def adjusted_0 reset_conf_0 by (simp only: example_orders if_True if_False)
  finally show ?thesis .
qed

lemma scenario_cell8:
  "cells (updateDetections (activateCells grid3 ks now) [person (9 / 10) 50 50 80 80]) ! 8 =
     resetCell (cells (activateCells grid3 ks now) ! 8)"
  by (simp add: updateDetections_single act3_affected)

lemma reset_8:
  "confidence (resetCell (cells (activateCells grid3 ks now) ! 8)) = Num 0"
  "detection (resetCell (cells (activateCells grid3 ks now) ! 8)) = None"
  "state (resetCell (cells (activateCells grid3 ks now) ! 8)) = (if 8 \<in> set ks then Active else Inactive)"
  by (simp_all add: act3_nth resetCell_def)

lemma grid3_low:
  "0 \<in> set (affectedCells grid3 (person (9 / 10) 0 0 30 30))"
  "adjustedConfidence (cells grid3 ! 0) (person (9 / 10) 0 0 30 30) = lit (81 / 1000)"
  "state (cells grid3 ! 0) = Inactive"
  "confidence (cells grid3 ! 0) = Num 0"
  by (simp_all add: affectedCells_3_300 grid3_nth adjusted_fresh0 del: freshCell_fields(1-4))

lemma grid3_first:
  "cells (updateDetections grid3 [person (9 / 10) 0 0 30 30]) ! 0 =
     mapCell (person (9 / 10) 0 0 30 30) (freshCell 3 (Num 300) (Num 300) 0)"
  by (simp add: updateDetections_single affectedCells_3_300 grid3_nth resetCell_def)

lemma grid3_first_fields:
  "state (cells (updateDetections grid3 [person (9 / 10) 0 0 30 30]) ! 0) = Inactive"
  "confidence (cells (updateDetections grid3 [person (9 / 10) 0 0 30 30]) ! 0) = lit (81 / 1000)"
  "detection (cells (updateDetections grid3 [person (9 / 10) 0 0 30 30]) ! 0) =
     Some (person (9 / 10) 0 0 30 30)"
proof -
  have c0: "confidence (freshCell 3 (Num 300) (Num 300) 0) = Num 0"
    and s0: "state (freshCell 3 (Num 300) (Num 300) 0) = Inactive" by simp_all
  have up: "jgt (adjustedConfidence (freshCell 3 (Num 300) (Num 300) 0) (person (9 / 10) 0 0 30 30))
              (confidence (freshCell 3 (Num 300) (Num 300) 0))"
    unfolding adjusted_fresh0 c0 by (rule example_orders)
  have low: "\<not> jgt (adjustedConfidence (freshCell 3 (Num 300) (Num 300) 0) (person (9 / 10) 0 0 30 30))
              (lit (1 / 10))"
    unfolding adjusted_fresh0 by (rule example_orders)
  show "state (cells (updateDetections grid3 [person (9 / 10) 0 0 30 30]) ! 0) = Inactive"
    unfolding grid3_first state_mapCell using low s0 by (simp only: if_False simp_thms)
  show "confidence (cells (updateDetections grid3 [person (9 / 10) 0 0 30 30]) ! 0) = lit (81 / 1000)"
    unfolding grid3_first confidence_mapCell using up by (simp only: if_True adjusted_fresh0)
  show "detection (cells (updateDetections grid3 [person (9 / 10) 0 0 30 30]) ! 0) =
     Some (person (9 / 10) 0 0 30 30)"
    unfolding grid3_first mapCell_def Let_def using up by (simp only: if_True) simp
qed

lemma grid3_second:
  "0 \<in> set (affectedCells (updateDetections grid3 [person (9 / 10) 0 0 30 30]) (person (9 / 10) 0 0 10 10))"
  "adjustedConfidence (cells (updateDetections grid3 [person (9 / 10) 0 0 30 30]) ! 0)
     (person (9 / 10) 0 0 10 10) = jmul (lit (9 / 10)) (lit (1 / 100))"
  "confidence (cells (updateDetections (updateDetections grid3 [person (9 / 10) 0 0 30 30])
     [person (9 / 10) 0 0 10 10]) ! 0) = lit (81 / 1000)"
  "detection (cells (updateDetections (updateDetections grid3 [person (9 / 10) 0 0 30 30])
     [person (9 / 10) 0 0 10 10]) ! 0) = Some (person (9 / 10) 0 0 30 30)"
proof -
  let ?g1 = "updateDetections grid3 [person (9 / 10) 0 0 30 30]"
  have a: "affectedCells ?g1 (person (9 / 10) 0 0 10 10) = [0]"
    by (rule affectedCells_3_300) simp_all
  then show "0 \<in> set (affectedCells ?g1 (person (9 / 10) 0 0 10 10))" by simp
  show adj: "adjustedConfidence (cells ?g1 ! 0) (person (9 / 10) 0 0 10 10) =
      jmul (lit (9 / 10)) (lit (1 / 100))"
    unfolding grid3_first adjustedConfidence_mapCell by (rule adjusted_fresh0)
  have r: "resetCell (cells ?g1 ! 0) = cells ?g1 ! 0"
    by (simp add: resetCell_def grid3_first_fields)
  have "0 < length (cells ?g1)" by simp
  from updateDetections_single[OF this, of "person (9 / 10) 0 0 10 10"]
  have m: "cells (updateDetections ?g1 [person (9 / 10) 0 0 10 10]) ! 0 =
        mapCell (person (9 / 10) 0 0 10 10) (cells ?g1 ! 0)"
    unfolding a r by simp
  have no: "\<not> jgt (adjustedConfidence (cells ?g1 ! 0) (person (9 / 10) 0 0 10 10))
              (confidence (cells ?g1 ! 0))"
    unfolding adj grid3_first_fields using example_orders(9) by (simp add: jgt_def jgt_asym[unfolded jgt_def])
  then have "mapCell (person (9 / 10) 0 0 10 10) (cells ?g1 ! 0) = cells ?g1 ! 0"
    by (simp add: mapCell_def Let_def)
  then show "confidence (cells (updateDetections ?g1 [person (9 / 10) 0 0 10 10]) ! 0) = lit (81 / 1000)"
    "detection (cells (updateDetections ?g1 [person (9 / 10) 0 0 10 10]) ! 0) =
       Some (person (9 / 10) 0 0 30 30)"
    unfolding m by (simp_all add: grid3_first_fields)
qed

lemma format_good:
  "formatDetection (rawPerson (9 / 10) (Some [Num 50, Num 50, Num 80, Num 80])) frame300 =
     Inr (person (9 / 10) 50 50 80 80)"
  by (simp add: formatDetection_def frame300_def person_def elemAt_def)

lemma processFrame_good:
  "processFrame defaultSimulation g frame300
     (Inr [rawPerson (9 / 10) (Some [Num 50, Num 50, Num 80, Num 80])]) =
   (defaultSimulation\<lparr>lastDetections := [person (9 / 10) 50 50 80 80]\<rparr>,
    updateDetections g [person (9 / 10) 50 50 80 80], None)"
proof -
  have "jge (lit (9 / 10)) (lit (3 / 10))"
    by (simp add: lit_nine_tenths lit_three_tenths)
  then show ?thesis
    by (simp add: processFrame_def postprocessDetections_def format_good sortByScore_def applyNMS_single)
qed

lemma processFrame_bad:
  "processFrame defaultSimulation g frame300
     (Inr [rawPerson (9 / 10) (Some [Num 50, Num 50, Num 80, Num 80]), rawPerson (8 / 10) None]) =
   (defaultSimulation, g, Some TypeError)"
proof -
  have "jge (lit (8 / 10)) (lit (3 / 10))"
    by (simp add: lit_eight_tenths lit_three_tenths)
  then show ?thesis
    by (intro processFrame_missing[where r = "rawPerson (8 / 10) None"]) simp_all
qed

text \<open>
  The 7 by 7 grid on the canvas of 300 by 300: a cell is \<open>300 / 7\<close> wide, which is
  rounded, and so are the positions of the columns.
\<close>

lemma grid7_roundings:
  "rnd (8078044612231837 / 8078044612231836) = Num (4503599627370497 / 4503599627370496)"
  "rnd (4503599627370497 / 4503599627370496) = Num (4503599627370497 / 4503599627370496)"
  "rnd (6031606643799771 / 140737488355328) = Num (6031606643799771 / 140737488355328)"
  "rnd (300 / 7) = Num (6031606643799771 / 140737488355328)"
  "rnd (1507901660949943 / 35184372088832) = Num (1507901660949943 / 35184372088832)"
  "rnd (18094819931399313 / 140737488355328) = Num (1130926245712457 / 8796093022208)"
  "rnd (24126426575199083 / 140737488355328) = Num (6031606643799771 / 35184372088832)"
  "rnd (18094819931399313 / 70368744177664) = Num (1130926245712457 / 4398046511104)"
  "rnd (42221246506598395 / 140737488355328) = Num (5277655813324799 / 17592186044416)"
  "rnd (36380278705529537602597139652441 / 19807040628566084398385987584) = Num (2019511153057959 / 1099511627776)"
  "rnd (9095069676382385908550945863053 / 4951760157141521099596496896) = Num (8078044612231837 / 4398046511104)"
proof -
  show "rnd (8078044612231837 / 8078044612231836) = Num (4503599627370497 / 4503599627370496)"
    using rnd_eval[of "8078044612231837 / 8078044612231836" 52 4503599627370497] by simp
  show "rnd (4503599627370497 / 4503599627370496) = Num (4503599627370497 / 4503599627370496)"
    using rnd_eval[of "4503599627370497 / 4503599627370496" 52 4503599627370497] by simp
  show "rnd (6031606643799771 / 140737488355328) = Num (6031606643799771 / 140737488355328)"
    using rnd_eval[of "6031606643799771 / 140737488355328" 47 6031606643799771] by simp
  show "rnd (300 / 7) = Num (6031606643799771 / 140737488355328)"
    using rnd_eval[of "300 / 7" 47 6031606643799771] by simp
  show "rnd (1507901660949943 / 35184372088832) = Num (1507901660949943 / 35184372088832)"
    using rnd_eval[of "1507901660949943 / 35184372088832" 47 6031606643799772] by simp
  show "rnd (18094819931399313 / 140737488355328) = Num (1130926245712457 / 8796093022208)"
    using rnd_eval[of "18094819931399313 / 140737488355328" 45 4523704982849828] by simp
  show "rnd (24126426575199083 / 140737488355328) = Num (6031606643799771 / 35184372088832)"
    using rnd_eval[of "24126426575199083 / 140737488355328" 45 6031606643799771] by simp
  show "rnd (18094819931399313 / 70368744177664) = Num (1130926245712457 / 4398046511104)"
    using rnd_eval[of "18094819931399313 / 70368744177664" 44 4523704982849828] by simp
  show "rnd (42221246506598395 / 140737488355328) = Num (5277655813324799 / 17592186044416)"
    using rnd_eval[of "42221246506598395 / 140737488355328" 44 5277655813324799] by simp
  show "rnd (36380278705529537602597139652441 / 19807040628566084398385987584) = Num (2019511153057959 / 1099511627776)"
    using rnd_eval[of "36380278705529537602597139652441 / 19807040628566084398385987584" 42 8078044612231836] by simp
  show "rnd (9095069676382385908550945863053 / 4951760157141521099596496896) = Num (8078044612231837 / 4398046511104)"
    using rnd_eval[of "9095069676382385908550945863053 / 4951760157141521099596496896" 42 8078044612231837] by simp
qed

lemma fresh7_width:
  "cellW (freshCell 7 (Num 300) (Num 300) k) = Num (6031606643799771 / 140737488355328)"
  "cellH (freshCell 7 (Num 300) (Num 300) k) = Num (6031606643799771 / 140737488355328)"
  by (simp_all add: grid7_roundings)

text \<open>
  The right edge \<open>cell.x + cell.width\<close> of every cell of that grid is at most that of
  the last column, which is below 300.
\<close>

lemma fresh7_right_edge:
  assumes "k < 49"
  shows "jle (jadd (cellX (freshCell 7 (Num 300) (Num 300) k)) (cellW (freshCell 7 (Num 300) (Num 300) k)))
             (Num (5277655813324799 / 17592186044416))"
proof -
  define cw :: real where "cw = 6031606643799771 / 140737488355328"
  define j :: real where "j = of_int (int k mod 7)"
  have j: "0 \<le> j" "j \<le> 6" unfolding j_def by simp_all
  have cwp: "0 \<le> cw" by (simp add: cw_def)
  have x: "cellX (freshCell 7 (Num 300) (Num 300) k) = rnd (j * cw)"
    by (simp add: grid7_roundings cw_def j_def)
  have w: "cellW (freshCell 7 (Num 300) (Num 300) k) = Num cw"
    unfolding cw_def by (rule fresh7_width)
  have x6: "rnd (6 * cw) = Num (1130926245712457 / 4398046511104)"
    unfolding cw_def by (simp add: grid7_roundings)
  have "0 \<le> j * cw" using j cwp by simp
  from rnd_mono[OF this] have lo: "jle (Num 0) (rnd (j * cw))" by simp
  have "j * cw \<le> 6 * cw" using j cwp by (intro mult_right_mono) simp_all
  from rnd_mono[OF this] have hi: "jle (rnd (j * cw)) (Num (1130926245712457 / 4398046511104))"
    unfolding x6 .
  from lo hi obtain xj where xj: "rnd (j * cw) = Num xj" "xj \<le> 1130926245712457 / 4398046511104"
    by (cases "rnd (j * cw)") (auto simp: jle_def)
  have "xj + cw \<le> 1130926245712457 / 4398046511104 + cw" using xj(2) by simp
  from rnd_mono[OF this] have "jle (rnd (xj + cw)) (Num (5277655813324799 / 17592186044416))"
    unfolding cw_def by (simp add: grid7_roundings)
  then show ?thesis unfolding x w xj(1) by simp
qed

lemma grid7_gap:
  assumes "k < 49"
  shows "\<not> inCell (freshCell 7 (Num 300) (Num 300) k) (300 - 1 / 2 ^ 45) py"
proof
  assume "inCell (freshCell 7 (Num 300) (Num 300) k) (300 - 1 / 2 ^ 45) py"
  then have lt: "jlt (Num (300 - 1 / 2 ^ 45))
      (jadd (cellX (freshCell 7 (Num 300) (Num 300) k)) (cellW (freshCell 7 (Num 300) (Num 300) k)))"
    unfolding inCell_def by blast
  from fresh7_right_edge[OF assms] lt show False
    by (cases "jadd (cellX (freshCell 7 (Num 300) (Num 300) k)) (cellW (freshCell 7 (Num 300) (Num 300) k))")
       (simp_all add: jle_def)
qed




text \<open>Intersection over union of the example boxes.\<close>

lemma iou_roundings:
  "rnd (5764607523034235 / 144115188075855872) = Num (5764607523034235 / 144115188075855872)"
  "rnd (12980742146337070512478121581609 / 324518553658426726783156020576256) = Num (1441151880758559 / 36028797018963968)"
  "rnd (51922968585348296461431293912025 / 1298074214633706907132624082305024) = Num (5764607523034237 / 144115188075855872)"
  "rnd (1441151880758559 / 18014398509481984) = Num (1441151880758559 / 18014398509481984)"
  "rnd (1 / 10) = Num (3602879701896397 / 36028797018963968)"
  "rnd (1 / 5) = Num (3602879701896397 / 18014398509481984)"
  "rnd (7205759403792795 / 36028797018963968) = Num (7205759403792795 / 36028797018963968)"
  "rnd (10808639105689191 / 36028797018963968) = Num (1351079888211149 / 4503599627370496)"
  "rnd (1 / 3) = Num (6004799503160661 / 18014398509481984)"
  "rnd (1 / 2) = Num (1 / 2)"
  "rnd (3 / 4) = Num (3 / 4)"
  "rnd (5764607523034237 / 5764607523034235) = Num (2251799813685249 / 2251799813685248)"
proof -
  show "rnd (5764607523034235 / 144115188075855872) = Num (5764607523034235 / 144115188075855872)"
    using rnd_eval[of "5764607523034235 / 144115188075855872" 57 5764607523034235] by simp
  show "rnd (12980742146337070512478121581609 / 324518553658426726783156020576256) = Num (1441151880758559 / 36028797018963968)"
    using rnd_eval[of "12980742146337070512478121581609 / 324518553658426726783156020576256" 57 5764607523034236] by simp
  show "rnd (51922968585348296461431293912025 / 1298074214633706907132624082305024) = Num (5764607523034237 / 144115188075855872)"
    using rnd_eval[of "51922968585348296461431293912025 / 1298074214633706907132624082305024" 57 5764607523034237] by simp
  show "rnd (1441151880758559 / 18014398509481984) = Num (1441151880758559 / 18014398509481984)"
    using rnd_eval[of "1441151880758559 / 18014398509481984" 56 5764607523034236] by simp
  show "rnd (1 / 10) = Num (3602879701896397 / 36028797018963968)"
    using rnd_eval[of "1 / 10" 56 7205759403792794] by simp
  show "rnd (1 / 5) = Num (3602879701896397 / 18014398509481984)"
    using rnd_eval[of "1 / 5" 55 7205759403792794] by simp
  show "rnd (7205759403792795 / 36028797018963968) = Num (7205759403792795 / 36028797018963968)"
    using rnd_eval[of "7205759403792795 / 36028797018963968" 55 7205759403792795] by simp
  show "rnd (10808639105689191 / 36028797018963968) = Num (1351079888211149 / 4503599627370496)"
    using rnd_eval_gen[of "10808639105689191 / 36028797018963968" 54 5404319552844596] by (simp add: roundEven_def)
  show "rnd (1 / 3) = Num (6004799503160661 / 18014398509481984)"
    using rnd_eval[of "1 / 3" 54 6004799503160661] by simp
  show "rnd (1 / 2) = Num (1 / 2)"
    using rnd_eval[of "1 / 2" 53 4503599627370496] by simp
  show "rnd (3 / 4) = Num (3 / 4)"
    using rnd_eval[of "3 / 4" 53 6755399441055744] by simp
  show "rnd (5764607523034237 / 5764607523034235) = Num (2251799813685249 / 2251799813685248)"
    using rnd_eval[of "5764607523034237 / 5764607523034235" 52 4503599627370498] by simp
qed

lemma iou_examples:
  "calculateIoU (Num 0, Num 0, Num 4, Num 1) (Num 0, Num 0, Num 3, Num 1) = Num (3 / 4)"
  "calculateIoU (Num 0, Num 0, Num 2, Num 1) (Num 0, Num 0, Num 1, Num 1) = Num (1 / 2)"
  "calculateIoU (Num 0, Num 0, Num 2, Num 1) (Num 1, Num 0, Num 2, Num 1) = lit (1 / 3)"
  "calculateIoU (Num 0, Num 0, Num 2, Num 1) (Num 0, Num 0, Num 2, Num 1) = Num 1"
  by (simp_all add: calculateIoU_def Let_def lit_def iou_roundings)

lemma iou_tenths:
  "calculateIoU (lit (1 / 10), lit (1 / 10), lit (2 / 10), lit (2 / 10))
                (lit (1 / 10), lit (1 / 10), lit (2 / 10), lit (2 / 10)) =
     Num (2251799813685249 / 2251799813685248)"
  by (simp add: calculateIoU_def Let_def lit_def iou_roundings)

text \<open>
  At \<open>2 ^ 53\<close> the sum \<open>x + width\<close> of \<open>2 ^ 53\<close> and 3 is a tie between
  \<open>2 ^ 53 + 2\<close> and \<open>2 ^ 53 + 4\<close>, and is rounded to the latter.
\<close>

lemma rnd_big_tie: "rnd (9007199254740992 + 3) = Num 9007199254740996"
  using rnd_eval_up[of "9007199254740992 + 3" 1 4503599627370498] by (simp add: roundEven_def)

lemma iou_big:
  "calculateIoU (Num 9007199254740992, Num 0, Num 3, Num 1)
                (Num 9007199254740992, Num 0, Num 3, Num 1) = Num 2"
  using rnd_big_tie by (simp add: calculateIoU_def Let_def)




section \<open>The claims\<close>

text \<open>
  Claim C1 (amended). On the 3 by 3 grid of a 300 by 300 canvas (cells of 100 by 100),
  whichever cells \<open>ks\<close> were activated before, \<open>updateDetections\<close> with the single
  detection of box \<open>(50, 50, 80, 80)\<close> and score 0.9 leaves cell (0,0) (index 0,
  rectangle 0 to 100) with the intersection 50 * 50 = 2500, that is the ratio 0.25, the
  confidence 0.9 * 0.25 = 0.225 and the state \<open>detecting\<close>, owned by the detection.
  Cell (2,2) (index 8, rectangle 200 to 300) is outside the box: it is no candidate, its
  confidence is 0 and it has no owner; its state is \<open>active\<close> if it was activated
  before the call and \<open>inactive\<close> otherwise.
\<close>

theorem updateDetections_scenario_3x3:
  "cellX (cells (activateCells grid3 ks now) ! 0) = Num 0 \<and>
   cellW (cells (activateCells grid3 ks now) ! 0) = Num 100 \<and>
   calculateIntersection (cells (activateCells grid3 ks now) ! 0)
     (bbox (person (9 / 10) 50 50 80 80)) = Num 2500 \<and>
   confidence (cells (updateDetections (activateCells grid3 ks now)
     [person (9 / 10) 50 50 80 80]) ! 0) = lit (9 / 40) \<and>
   state (cells (updateDetections (activateCells grid3 ks now)
     [person (9 / 10) 50 50 80 80]) ! 0) = Detecting \<and>
   detection (cells (updateDetections (activateCells grid3 ks now)
     [person (9 / 10) 50 50 80 80]) ! 0) = Some (person (9 / 10) 50 50 80 80) \<and>
   cellX (cells (activateCells grid3 ks now) ! 8) = Num 200 \<and>
   cellY (cells (activateCells grid3 ks now) ! 8) = Num 200 \<and>
   8 \<notin> set (affectedCells (activateCells grid3 ks now) (person (9 / 10) 50 50 80 80)) \<and>
   confidence (cells (updateDetections (activateCells grid3 ks now)
     [person (9 / 10) 50 50 80 80]) ! 8) = Num 0 \<and>
   detection (cells (updateDetections (activateCells grid3 ks now)
     [person (9 / 10) 50 50 80 80]) ! 8) = None \<and>
   state (cells (updateDetections (activateCells grid3 ks now)
     [person (9 / 10) 50 50 80 80]) ! 8) = (if 8 \<in> set ks then Active else Inactive)"
proof -
  have g0: "cellX (cells (activateCells grid3 ks now) ! 0) = Num 0"
    "cellW (cells (activateCells grid3 ks now) ! 0) = Num 100"
    by (rule act3_geometry)+
  have g8: "cellX (cells (activateCells grid3 ks now) ! 8) = Num 200"
    "cellY (cells (activateCells grid3 ks now) ! 8) = Num 200"
    by (rule act3_geometry)+
  have c0: "confidence (cells (updateDetections (activateCells grid3 ks now)
       [person (9 / 10) 50 50 80 80]) ! 0) = lit (9 / 40)"
    "state (cells (updateDetections (activateCells grid3 ks now)
       [person (9 / 10) 50 50 80 80]) ! 0) = Detecting"
    "detection (cells (updateDetections (activateCells grid3 ks now)
       [person (9 / 10) 50 50 80 80]) ! 0) = Some (person (9 / 10) 50 50 80 80)"
    unfolding scenario_cell0 by simp_all
  have n8: "8 \<notin> set (affectedCells (activateCells grid3 ks now) (person (9 / 10) 50 50 80 80))"
    unfolding act3_affected by simp
  have c8: "confidence (cells (updateDetections (activateCells grid3 ks now)
       [person (9 / 10) 50 50 80 80]) ! 8) = Num 0"
    "detection (cells (updateDetections (activateCells grid3 ks now)
       [person (9 / 10) 50 50 80 80]) ! 8) = None"
    "state (cells (updateDetections (activateCells grid3 ks now)
       [person (9 / 10) 50 50 80 80]) ! 8) = (if 8 \<in> set ks then Active else Inactive)"
    unfolding scenario_cell8 by (rule reset_8)+
  show ?thesis using g0 intersection_0 c0 g8 n8 c8 by (intro conjI)
qed

theorem updateDetections_scenario_3x3_witness:
  "confidence (cells (updateDetections (activateCells grid3 [8] 0)
     [person (9 / 10) 50 50 80 80]) ! 0) = lit (9 / 40) \<and>
   state (cells (updateDetections (activateCells grid3 [8] 0)
     [person (9 / 10) 50 50 80 80]) ! 8) = Active"
  using updateDetections_scenario_3x3[of "[8]" 0] by simp

text \<open>
  Claim C1 as stated fails. With all nine cells activated, cell (0,0) has the
  intersection 2500 (not 6400), the confidence 0.225 (not 0.576) and the state
  \<open>detecting\<close> (not \<open>detected\<close>); on the grid as the constructor leaves it, cell
  (2,2) stays \<open>inactive\<close> (not \<open>active\<close>).
\<close>

theorem scenario_3x3_cell_is_detecting:
  "calculateIntersection (cells (activateCells grid3 [0 ..< 9] 0) ! 0)
     (bbox (person (9 / 10) 50 50 80 80)) = Num 2500 \<and>
   confidence (cells (updateDetections (activateCells grid3 [0 ..< 9] 0)
     [person (9 / 10) 50 50 80 80]) ! 0) = lit (9 / 40) \<and>
   state (cells (updateDetections (activateCells grid3 [0 ..< 9] 0)
     [person (9 / 10) 50 50 80 80]) ! 0) = Detecting \<and>
   state (cells (updateDetections grid3 [person (9 / 10) 50 50 80 80]) ! 8) = Inactive"
proof -
  have a: "confidence (cells (updateDetections (activateCells grid3 [0 ..< 9] 0)
       [person (9 / 10) 50 50 80 80]) ! 0) = lit (9 / 40)"
    "state (cells (updateDetections (activateCells grid3 [0 ..< 9] 0)
       [person (9 / 10) 50 50 80 80]) ! 0) = Detecting"
    unfolding scenario_cell0 by simp_all
  have b: "state (cells (updateDetections grid3 [person (9 / 10) 50 50 80 80]) ! 8) = Inactive"
    using scenario_cell8[of "[]" 0] reset_8(3)[of "[]" 0] by simp
  show ?thesis using intersection_0 a b by (intro conjI)
qed

text \<open>
  Claim C2 (amended). In \<open>applyNMS\<close> the detection at index \<open>j\<close> is suppressed if and
  only if an earlier detection that is kept has an IoU with it that is strictly greater
  than \<open>iouThreshold\<close>, and the result lists the kept detections in their order. So of
  two detections the second is dropped exactly when their IoU is greater than the
  threshold: at an IoU equal to the threshold, or below it, both survive.
\<close>

theorem applyNMS_suppresses_above_threshold:
  "applyNMS sim ds = map ((!) ds) (filter (\<lambda>j. j \<notin> suppressedIndices sim ds) [0 ..< length ds]) \<and>
   (\<forall>j < length ds. j \<in> suppressedIndices sim ds \<longleftrightarrow>
       (\<exists>i < j. i \<notin> suppressedIndices sim ds \<and>
                jgt (calculateIoU (bbox (ds ! i)) (bbox (ds ! j))) (iouThreshold sim))) \<and>
   suppressedIndices sim ds \<subseteq> {j. j < length ds} \<and>
   applyNMS sim [a, b] =
     (if jgt (calculateIoU (bbox a) (bbox b)) (iouThreshold sim) then [a] else [a, b])"
proof -
  define S where "S = suppressedIndices sim ds"
  have "length ds \<le> length ds" by simp
  from nms_prefix_inv[OF this, of "iouThreshold sim"]
  have sel: "fst (nmsLoop (iouThreshold sim) ds) = map ((!) ds) (filter (\<lambda>i. i \<notin> S) [0 ..< length ds])"
    and S: "\<And>j. j \<in> S \<longleftrightarrow> j < length ds \<and>
              (\<exists>i. i < length ds \<and> i < j \<and> i \<notin> S \<and> overlaps (iouThreshold sim) ds i j)"
    unfolding S_def suppressedIndices_def nmsLoop_def by blast+
  have 1: "applyNMS sim ds = map ((!) ds) (filter (\<lambda>j. j \<notin> S) [0 ..< length ds])"
    using sel by (simp add: applyNMS_def)
  have 2: "\<forall>j < length ds. j \<in> S \<longleftrightarrow>
       (\<exists>i < j. i \<notin> S \<and> jgt (calculateIoU (bbox (ds ! i)) (bbox (ds ! j))) (iouThreshold sim))"
  proof (intro allI impI iffI)
    fix j assume "j < length ds" "j \<in> S"
    with S[of j] show "\<exists>i < j. i \<notin> S \<and> jgt (calculateIoU (bbox (ds ! i)) (bbox (ds ! j))) (iouThreshold sim)"
      unfolding overlaps_def by blast
  next
    fix j assume j: "j < length ds"
      and "\<exists>i < j. i \<notin> S \<and> jgt (calculateIoU (bbox (ds ! i)) (bbox (ds ! j))) (iouThreshold sim)"
    then obtain i where i: "i < j" "i \<notin> S" "overlaps (iouThreshold sim) ds i j"
      unfolding overlaps_def by blast
    then have "i < length ds" using j by simp
    with i j show "j \<in> S" using S[of j] by blast
  qed
  have 3: "S \<subseteq> {j. j < length ds}" using S by blast
  have 4: "applyNMS sim [a, b] =
     (if jgt (calculateIoU (bbox a) (bbox b)) (iouThreshold sim) then [a] else [a, b])"
    by (rule applyNMS_pair)
  show ?thesis unfolding S_def[symmetric] using 1 2 3 4 by (intro conjI)
qed

theorem applyNMS_suppresses_above_threshold_witness:
  "applyNMS defaultSimulation [person (9 / 10) 0 0 4 1, person (8 / 10) 0 0 3 1] =
     [person (9 / 10) 0 0 4 1] \<and>
   suppressedIndices defaultSimulation [person (9 / 10) 0 0 4 1, person (8 / 10) 0 0 3 1] = {1}"
proof -
  define a where "a = person (9 / 10) 0 0 4 1"
  define b where "b = person (8 / 10) 0 0 3 1"
  define S where "S = suppressedIndices defaultSimulation [a, b]"
  note t = applyNMS_suppresses_above_threshold[of defaultSimulation "[a, b]" a b]
  have iou: "jgt (calculateIoU (bbox a) (bbox b)) (iouThreshold defaultSimulation)"
    by (simp add: a_def b_def iou_examples lit_half)
  have sub: "S \<subseteq> {j. j < length [a, b]}" unfolding S_def using t by blast
  have c: "\<And>j. j < length [a, b] \<Longrightarrow>
             j \<in> S \<longleftrightarrow> (\<exists>i < j. i \<notin> S \<and>
               jgt (calculateIoU (bbox ([a, b] ! i)) (bbox ([a, b] ! j))) (iouThreshold defaultSimulation))"
    unfolding S_def using t by blast
  have z: "0 \<notin> S" using c[of 0] by simp
  have "jgt (calculateIoU (bbox ([a, b] ! 0)) (bbox ([a, b] ! 1))) (iouThreshold defaultSimulation)"
    using iou by simp
  with z have "\<exists>i < (1::nat). i \<notin> S \<and>
      jgt (calculateIoU (bbox ([a, b] ! i)) (bbox ([a, b] ! 1))) (iouThreshold defaultSimulation)"
    by (intro exI[of _ 0]) simp
  then have o: "1 \<in> S" using c[of 1] by simp
  have S: "S = {1}"
  proof
    show "S \<subseteq> {1}"
    proof
      fix j assume j: "j \<in> S"
      with sub have "j < 2" by auto
      with j z show "j \<in> {1}" by (cases "j = 0") auto
    qed
    show "{1} \<subseteq> S" using o by simp
  qed
  have "applyNMS defaultSimulation [a, b] =
          (if jgt (calculateIoU (bbox a) (bbox b)) (iouThreshold defaultSimulation)
           then [a] else [a, b])"
    using t by blast
  with iou have "applyNMS defaultSimulation [a, b] = [a]" by simp
  with S show ?thesis unfolding S_def a_def b_def by simp
qed

text \<open>
  Claim C2 as stated (suppression at an IoU greater than or equal to the threshold)
  fails: the boxes \<open>(0, 0, 2, 1)\<close> and \<open>(0, 0, 1, 1)\<close> have the IoU 1/2, the
  threshold is 1/2, and both detections survive.
\<close>

theorem applyNMS_equal_iou_keeps_both:
  "calculateIoU (bbox (person (9 / 10) 0 0 2 1)) (bbox (person (8 / 10) 0 0 1 1)) =
     iouThreshold defaultSimulation \<and>
   applyNMS defaultSimulation [person (9 / 10) 0 0 2 1, person (8 / 10) 0 0 1 1] =
     [person (9 / 10) 0 0 2 1, person (8 / 10) 0 0 1 1]"
  by (simp add: applyNMS_pair iou_examples lit_half)

text \<open>
  Claim C3. The claim (after one call of \<open>updateDetections\<close> the confidence of every
  cell is the greatest adjusted confidence of the detections of that call, 0 when there
  is none) fails on a cell that is \<open>inactive\<close>, which the reset step skips. On the
  new 3 by 3 grid, where every cell is inactive, a first call with the box
  \<open>(0, 0, 30, 30)\<close> and score 0.9 leaves cell 0 inactive with the confidence 0.081,
  owned by that detection. A second call whose only detection has the box
  \<open>(0, 0, 10, 10)\<close> and score 0.9 has cell 0 as a candidate with the adjusted
  confidence \<open>0.9 * 0.01\<close>, which is below 0.081: the cell keeps the confidence 0.081
  and the owner of the first call, a detection that is not in the list of the second.
\<close>

theorem updateDetections_keeps_stale_confidence:
  "state (cells grid3 ! 0) = Inactive \<and>
   state (cells (updateDetections grid3 [person (9 / 10) 0 0 30 30]) ! 0) = Inactive \<and>
   confidence (cells (updateDetections grid3 [person (9 / 10) 0 0 30 30]) ! 0) = lit (81 / 1000) \<and>
   0 \<in> set (affectedCells (updateDetections grid3 [person (9 / 10) 0 0 30 30])
             (person (9 / 10) 0 0 10 10)) \<and>
   adjustedConfidence (cells (updateDetections grid3 [person (9 / 10) 0 0 30 30]) ! 0)
     (person (9 / 10) 0 0 10 10) = jmul (lit (9 / 10)) (lit (1 / 100)) \<and>
   jlt (jmul (lit (9 / 10)) (lit (1 / 100))) (lit (81 / 1000)) \<and>
   confidence (cells (updateDetections (updateDetections grid3 [person (9 / 10) 0 0 30 30])
     [person (9 / 10) 0 0 10 10]) ! 0) = lit (81 / 1000) \<and>
   detection (cells (updateDetections (updateDetections grid3 [person (9 / 10) 0 0 30 30])
     [person (9 / 10) 0 0 10 10]) ! 0) = Some (person (9 / 10) 0 0 30 30)"
  using grid3_low(3) grid3_first_fields(1,2) grid3_second(1,2) example_orders(9) grid3_second(3,4)
  by (intro conjI)

text \<open>
  Claim C4 (amended). \<open>updateDetections\<close> resets the cells and then runs
  \<open>mapDetectionToGrid\<close> for one detection after the other. In \<open>mapDetectionToGrid\<close>
  the cell at a candidate index adopts the detection exactly when the adjusted
  confidence is strictly greater than the confidence of the cell; it then takes the
  adjusted confidence, the detection as owner, and the state \<open>confident\<close> above 0.7,
  \<open>detected\<close> above 0.4, \<open>detecting\<close> above 0.1 (compared as binary64 numbers), and
  keeps its state otherwise; every other cell is unchanged. On a tie the first detection
  wins: of two detections with the same adjusted confidence the second changes nothing.
  The state that is kept is the state after the reset step: \<open>active\<close> for a cell that
  was not inactive, and \<open>inactive\<close> for a cell that was inactive. So after
  \<open>updateDetections\<close> a cell has that state unless its confidence is above 0.1.
\<close>

theorem mapDetectionToGrid_adopts_strictly_greater:
  assumes "k < length (cells g)"
  shows "cells (mapDetectionToGrid g d) ! k =
     (if k \<in> set (affectedCells g d) \<and>
         jgt (adjustedConfidence (cells g ! k) d) (confidence (cells g ! k))
      then (cells g ! k)
             \<lparr>confidence := adjustedConfidence (cells g ! k) d,
              detection := Some d,
              state := (if jgt (adjustedConfidence (cells g ! k) d) (lit (7 / 10)) then Confident
                        else if jgt (adjustedConfidence (cells g ! k) d) (lit (4 / 10)) then Detected
                        else if jgt (adjustedConfidence (cells g ! k) d) (lit (1 / 10)) then Detecting
                        else state (cells g ! k))\<rparr>
      else cells g ! k) \<and>
   cells (updateDetections g []) = map resetCell (cells g) \<and>
   cells (updateDetections g (ds @ [d])) = cells (mapDetectionToGrid (updateDetections g ds) d) \<and>
   (k \<in> set (affectedCells g d) \<and>
    adjustedConfidence (cells g ! k) d = adjustedConfidence (cells g ! k) d' \<longrightarrow>
      cells (updateDetections g [d, d']) ! k = cells (updateDetections g [d]) ! k) \<and>
   (state (cells (updateDetections g ds) ! k) =
      (if state (cells g ! k) = Inactive then Inactive else Active) \<or>
    jgt (confidence (cells (updateDetections g ds) ! k)) (lit (1 / 10)))"
proof -
  note 1 = mapDetectionToGrid_cell[OF assms, of d]
  note 2 = updateDetections_Nil[of g]
  note 3 = updateDetections_snoc[of g ds d]
  have 4: "k \<in> set (affectedCells g d) \<and>
    adjustedConfidence (cells g ! k) d = adjustedConfidence (cells g ! k) d' \<longrightarrow>
      cells (updateDetections g [d, d']) ! k = cells (updateDetections g [d]) ! k"
    using updateDetections_tie[OF assms, of d d'] by blast
  note 5 = updateDetections_state_kept[OF assms, of ds]
  from 1 2 3 4 5 show ?thesis by (intro conjI)
qed

theorem mapDetectionToGrid_adopts_strictly_greater_witness:
  "0 < length (cells grid3) \<and>
   cells (mapDetectionToGrid grid3 (person (9 / 10) 50 50 80 80)) ! 0 =
     (cells grid3 ! 0)
       \<lparr>confidence := lit (9 / 40), detection := Some (person (9 / 10) 50 50 80 80),
        state := Detecting\<rparr> \<and>
   cells (mapDetectionToGrid grid3 (person (7 / 8) 0 0 80 100)) ! 0 =
     (cells grid3 ! 0)
       \<lparr>confidence := Num (6305039478318695 / 9007199254740992),
        detection := Some (person (7 / 8) 0 0 80 100),
        state := Confident\<rparr>"
proof -
  have k: "0 < length (cells grid3)" by simp
  have a: "affectedCells grid3 (person (9 / 10) 50 50 80 80) = [0, 1, 3, 4]"
    "affectedCells grid3 (person (7 / 8) 0 0 80 100) = [0, 3]"
    by (rule affectedCells_3_300; simp)+
  have c: "cells grid3 ! 0 = freshCell 3 (Num 300) (Num 300) 0" by (simp add: grid3_nth)
  have c0: "confidence (freshCell 3 (Num 300) (Num 300) 0) = Num 0" by simp
  have o: "jgt (Num (6305039478318695 / 9007199254740992)) (Num 0)" by simp
  from mapDetectionToGrid_adopts_strictly_greater[OF k, of "person (9 / 10) 50 50 80 80"]
  have 1: "cells (mapDetectionToGrid grid3 (person (9 / 10) 50 50 80 80)) ! 0 =
     (cells grid3 ! 0)
       \<lparr>confidence := lit (9 / 40), detection := Some (person (9 / 10) 50 50 80 80),
        state := Detecting\<rparr>"
    unfolding a c adjusted_fresh0 c0 by (simp add: example_orders)
  from mapDetectionToGrid_adopts_strictly_greater[OF k, of "person (7 / 8) 0 0 80 100"]
  have 2: "cells (mapDetectionToGrid grid3 (person (7 / 8) 0 0 80 100)) ! 0 =
     (cells grid3 ! 0)
       \<lparr>confidence := Num (6305039478318695 / 9007199254740992),
        detection := Some (person (7 / 8) 0 0 80 100),
        state := Confident\<rparr>"
    unfolding a c adjusted_fresh0 c0 using o example_orders(10) by simp
  from k 1 2 show ?thesis by (intro conjI)
qed

text \<open>
  Claim C4 as stated (a state that is not set by a threshold is left unchanged from
  \<open>active\<close>) fails on a cell that is inactive: on the new 3 by 3 grid the detection
  of box \<open>(0, 0, 30, 30)\<close> and score 0.9 has cell 0 as a candidate with an adjusted
  confidence above the confidence 0 of the cell, the cell adopts the detection, and its
  state is left \<open>inactive\<close>, not \<open>active\<close>.
\<close>

theorem inactive_cell_adopts_and_stays_inactive:
  "0 \<in> set (affectedCells grid3 (person (9 / 10) 0 0 30 30)) \<and>
   jgt (adjustedConfidence (cells grid3 ! 0) (person (9 / 10) 0 0 30 30))
       (confidence (cells grid3 ! 0)) \<and>
   detection (cells (updateDetections grid3 [person (9 / 10) 0 0 30 30]) ! 0) =
     Some (person (9 / 10) 0 0 30 30) \<and>
   state (cells (updateDetections grid3 [person (9 / 10) 0 0 30 30]) ! 0) = Inactive \<and>
   state (cells (updateDetections grid3 [person (9 / 10) 0 0 30 30]) ! 0) \<noteq> Active"
proof -
  have a: "jgt (adjustedConfidence (cells grid3 ! 0) (person (9 / 10) 0 0 30 30))
       (confidence (cells grid3 ! 0))"
    unfolding grid3_low(2,4) by (rule example_orders)
  have n: "state (cells (updateDetections grid3 [person (9 / 10) 0 0 30 30]) ! 0) \<noteq> Active"
    unfolding grid3_first_fields(1) by simp
  show ?thesis using grid3_low(1) a grid3_first_fields(3,1) n by (intro conjI)
qed

text \<open>
  Claim C5. \<open>updateDetections\<close> is idempotent: for every grid and every list of
  detections, a second call with the same list returns the grid of the first call, so
  every cell keeps its state, confidence and owner.
\<close>

theorem updateDetections_idempotent:
  "updateDetections (updateDetections g ds) ds = updateDetections g ds"
proof -
  let ?g1 = "updateDetections g ds"
  have f1: "?g1 = g\<lparr>detections := ds, cells := cells ?g1\<rparr>"
    by (rule updateDetections_frame)
  have step: "cellStep ?g1 = cellStep g"
    by (subst f1) simp
  have run: "\<And>k. cellRun ?g1 k = cellRun g k"
    by (intro ext) (simp add: cellRun_def step)
  have cs: "cells (updateDetections ?g1 ds) = cells ?g1"
  proof (rule nth_equalityI)
    show "length (cells (updateDetections ?g1 ds)) = length (cells ?g1)" by simp
    fix k assume "k < length (cells (updateDetections ?g1 ds))"
    then have k: "k < length (cells g)" by simp
    then have k1: "k < length (cells ?g1)" by simp
    show "cells (updateDetections ?g1 ds) ! k = cells ?g1 ! k"
      unfolding updateDetections_nth[OF k1] updateDetections_nth[OF k] run
      by (rule cellRun_reset_idem)
  qed
  have "updateDetections ?g1 ds = ?g1\<lparr>detections := ds, cells := cells (updateDetections ?g1 ds)\<rparr>"
    by (rule updateDetections_frame)
  also have "\<dots> = ?g1\<lparr>detections := ds, cells := cells ?g1\<rparr>" by (simp only: cs)
  also have "\<dots> = g\<lparr>detections := ds, cells := cells ?g1\<rparr>" by (subst f1) simp
  also have "\<dots> = ?g1" by (rule f1[symmetric])
  finally show ?thesis .
qed

theorem updateDetections_idempotent_witness:
  "updateDetections (updateDetections grid3 [person (9 / 10) 0 0 30 30]) [person (9 / 10) 0 0 30 30] =
     updateDetections grid3 [person (9 / 10) 0 0 30 30] \<and>
   confidence (cells (updateDetections (updateDetections grid3 [person (9 / 10) 0 0 30 30])
     [person (9 / 10) 0 0 30 30]) ! 0) = lit (81 / 1000)"
  using updateDetections_idempotent[of grid3 "[person (9 / 10) 0 0 30 30]"] grid3_first_fields(2)
  by simp

text \<open>
  Claim C6 (amended). For a grid size \<open>n\<close> above 0 (in particular 7, 13 and 19),
  \<open>setGridSize g n\<close> has exactly \<open>n * n\<close> cells; the cell at index \<open>k\<close> is in row
  \<open>k div n\<close> and column \<open>k mod n\<close>, has the width \<open>canvasWidth / n\<close> and the height
  \<open>canvasHeight / n\<close>, lies at \<open>(col * cellWidth, row * cellHeight)\<close>, each as
  JavaScript computes it, and is inactive with confidence 0 and no owner, whatever the
  cells of \<open>g\<close> were. The set \<open>activeCells\<close> and the list \<open>detections\<close> of the grid
  are not fields of a cell: \<open>setGridSize\<close> leaves them as they were. When the width and
  the height of the canvas are integer multiples \<open>n * a\<close> and \<open>n * b\<close> of the grid size
  (up to \<open>2 ^ 25\<close>), no operation rounds: a cell is \<open>a\<close> wide and \<open>b\<close> high at
  \<open>(col * a, row * b)\<close>, the areas of the cells add up to the area of the canvas, every
  point of the canvas lies in exactly one cell, and every point of a cell lies on the
  canvas.
\<close>

theorem setGridSize_tiles_canvas:
  assumes "0 < n"
  shows "length (cells (setGridSize g n)) = nat (n * n) \<and>
         (\<forall>k < nat (n * n).
            cells (setGridSize g n) ! k = freshCell n (canvasWidth g) (canvasHeight g) k) \<and>
         cells (setGridSize (g\<lparr>cells := cs\<rparr>) n) = cells (setGridSize g n) \<and>
         activeCells (setGridSize g n) = activeCells g \<and>
         detections (setGridSize g n) = detections g \<and>
         (0 \<le> a \<and> n * a \<le> 2 ^ 25 \<and> 0 \<le> b \<and> n * b \<le> 2 ^ 25 \<and>
          canvasWidth g = Num (of_int (n * a)) \<and> canvasHeight g = Num (of_int (n * b)) \<longrightarrow>
            (\<forall>k < nat (n * n).
               cellW (cells (setGridSize g n) ! k) = Num (of_int a) \<and>
               cellH (cells (setGridSize g n) ! k) = Num (of_int b) \<and>
               cellX (cells (setGridSize g n) ! k) = Num (of_int (int k mod n * a)) \<and>
               cellY (cells (setGridSize g n) ! k) = Num (of_int (int k div n * b))) \<and>
            foldr jadd (map cellArea (cells (setGridSize g n))) (Num 0) =
              Num (of_int (n * a) * of_int (n * b)) \<and>
            (\<forall>px py. 0 \<le> px \<and> px < of_int (n * a) \<and> 0 \<le> py \<and> py < of_int (n * b) \<longrightarrow>
               (\<exists>!k. k < nat (n * n) \<and> inCell (cells (setGridSize g n) ! k) px py)) \<and>
            (\<forall>k px py. k < nat (n * n) \<and> inCell (cells (setGridSize g n) ! k) px py \<longrightarrow>
               0 \<le> px \<and> px < of_int (n * a) \<and> 0 \<le> py \<and> py < of_int (n * b)))"
proof -
  have 1: "length (cells (setGridSize g n)) = nat (n * n)" by simp
  have 2: "\<forall>k < nat (n * n).
            cells (setGridSize g n) ! k = freshCell n (canvasWidth g) (canvasHeight g) k"
    using setGridSize_nth[OF assms] by blast
  have 3: "cells (setGridSize (g\<lparr>cells := cs\<rparr>) n) = cells (setGridSize g n)"
    by (simp add: setGridSize_def createGrid_def calculateCellPositions_def Let_def)
  have 4: "activeCells (setGridSize g n) = activeCells g" "detections (setGridSize g n) = detections g"
    by simp_all
  have 5: "(\<forall>k < nat (n * n).
               cellW (cells (setGridSize g n) ! k) = Num (of_int a) \<and>
               cellH (cells (setGridSize g n) ! k) = Num (of_int b) \<and>
               cellX (cells (setGridSize g n) ! k) = Num (of_int (int k mod n * a)) \<and>
               cellY (cells (setGridSize g n) ! k) = Num (of_int (int k div n * b))) \<and>
            foldr jadd (map cellArea (cells (setGridSize g n))) (Num 0) =
              Num (of_int (n * a) * of_int (n * b)) \<and>
            (\<forall>px py. 0 \<le> px \<and> px < of_int (n * a) \<and> 0 \<le> py \<and> py < of_int (n * b) \<longrightarrow>
               (\<exists>!k. k < nat (n * n) \<and> inCell (cells (setGridSize g n) ! k) px py)) \<and>
            (\<forall>k px py. k < nat (n * n) \<and> inCell (cells (setGridSize g n) ! k) px py \<longrightarrow>
               0 \<le> px \<and> px < of_int (n * a) \<and> 0 \<le> py \<and> py < of_int (n * b))"
    if h: "0 \<le> a \<and> n * a \<le> 2 ^ 25 \<and> 0 \<le> b \<and> n * b \<le> 2 ^ 25 \<and>
          canvasWidth g = Num (of_int (n * a)) \<and> canvasHeight g = Num (of_int (n * b))"
  proof -
    from h have a: "0 \<le> a" "n * a \<le> 2 ^ 25" and b: "0 \<le> b" "n * b \<le> 2 ^ 25"
      and cw: "canvasWidth g = Num (of_int (n * a))" and ch: "canvasHeight g = Num (of_int (n * b))"
      by simp_all
    have geo: "\<forall>k < nat (n * n).
               cellW (cells (setGridSize g n) ! k) = Num (of_int a) \<and>
               cellH (cells (setGridSize g n) ! k) = Num (of_int b) \<and>
               cellX (cells (setGridSize g n) ! k) = Num (of_int (int k mod n * a)) \<and>
               cellY (cells (setGridSize g n) ! k) = Num (of_int (int k div n * b))"
    proof (intro allI impI)
      fix k assume k: "k < nat (n * n)"
      show "cellW (cells (setGridSize g n) ! k) = Num (of_int a) \<and>
               cellH (cells (setGridSize g n) ! k) = Num (of_int b) \<and>
               cellX (cells (setGridSize g n) ! k) = Num (of_int (int k mod n * a)) \<and>
               cellY (cells (setGridSize g n) ! k) = Num (of_int (int k div n * b))"
        unfolding setGridSize_nth[OF assms k] cw ch
        using freshCell_exact[OF assms a b k] by (intro conjI)
    qed
    have area: "foldr jadd (map cellArea (cells (setGridSize g n))) (Num 0) =
              Num (of_int (n * a) * of_int (n * b))"
      using assms a b cw ch by (rule setGridSize_area)
    have tiles: "\<forall>px py. 0 \<le> px \<and> px < of_int (n * a) \<and> 0 \<le> py \<and> py < of_int (n * b) \<longrightarrow>
               (\<exists>!k. k < nat (n * n) \<and> inCell (cells (setGridSize g n) ! k) px py)"
      using setGridSize_tiles[OF assms a b cw ch] by blast
    have inside: "\<forall>k px py. k < nat (n * n) \<and> inCell (cells (setGridSize g n) ! k) px py \<longrightarrow>
               0 \<le> px \<and> px < of_int (n * a) \<and> 0 \<le> py \<and> py < of_int (n * b)"
      using setGridSize_inside[OF assms a b cw ch] by blast
    from geo area tiles inside show ?thesis by (intro conjI)
  qed
  show ?thesis
    apply (rule conjI, rule 1)
    apply (rule conjI, rule 2)
    apply (rule conjI, rule 3)
    apply (rule conjI, rule 4(1))
    apply (rule conjI, rule 4(2))
    apply (rule impI, rule 5, assumption)
    done
qed

theorem setGridSize_tiles_canvas_witness:
  "(0::int) < 7 \<and>
   length (cells (setGridSize (resize grid3 (Some (Num 700, Num 350))) 7)) = 49 \<and>
   cellW (cells (setGridSize (resize grid3 (Some (Num 700, Num 350))) 7) ! 8) = Num 100 \<and>
   cellX (cells (setGridSize (resize grid3 (Some (Num 700, Num 350))) 7) ! 8) = Num 100 \<and>
   cellY (cells (setGridSize (resize grid3 (Some (Num 700, Num 350))) 7) ! 8) = Num 50 \<and>
   foldr jadd (map cellArea (cells (setGridSize (resize grid3 (Some (Num 700, Num 350))) 7))) (Num 0) =
     Num 245000"
proof -
  let ?g = "resize grid3 (Some (Num 700, Num 350))"
  have n: "(0::int) < 7" by simp
  have h: "(0::int) \<le> 100 \<and> (7::int) * 100 \<le> 2 ^ 25 \<and> (0::int) \<le> 50 \<and> (7::int) * 50 \<le> 2 ^ 25 \<and>
      canvasWidth ?g = Num (of_int (7 * 100)) \<and> canvasHeight ?g = Num (of_int (7 * 50))"
    by simp
  note t = setGridSize_tiles_canvas[OF n, of ?g "[]" 100 50]
  from t have l: "length (cells (setGridSize ?g 7)) = 49" by simp
  from t h have geo: "\<forall>k < nat (7 * 7).
               cellW (cells (setGridSize ?g 7) ! k) = Num (of_int 100) \<and>
               cellH (cells (setGridSize ?g 7) ! k) = Num (of_int 50) \<and>
               cellX (cells (setGridSize ?g 7) ! k) = Num (of_int (int k mod 7 * 100)) \<and>
               cellY (cells (setGridSize ?g 7) ! k) = Num (of_int (int k div 7 * 50))"
    by blast
  have "(8::nat) < nat (7 * 7)" by simp
  with geo have g8: "cellW (cells (setGridSize ?g 7) ! 8) = Num (of_int 100) \<and>
               cellH (cells (setGridSize ?g 7) ! 8) = Num (of_int 50) \<and>
               cellX (cells (setGridSize ?g 7) ! 8) = Num (of_int (int 8 mod 7 * 100)) \<and>
               cellY (cells (setGridSize ?g 7) ! 8) = Num (of_int (int 8 div 7 * 50))"
    by blast
  from t h have "foldr jadd (map cellArea (cells (setGridSize ?g 7))) (Num 0) =
              Num (of_int (7 * 100) * of_int (7 * 50))"
    by blast
  then have a: "foldr jadd (map cellArea (cells (setGridSize ?g 7))) (Num 0) = Num 245000" by simp
  from g8 have w: "cellW (cells (setGridSize ?g 7) ! 8) = Num 100"
    and x: "cellX (cells (setGridSize ?g 7) ! 8) = Num 100"
    and y: "cellY (cells (setGridSize ?g 7) ! 8) = Num 50"
    by simp_all
  show ?thesis using n l w x y a by (intro conjI)
qed

text \<open>
  Claim C6 as stated fails for the grid size 7 on the canvas of 300 by 300. The width
  \<open>300 / 7\<close> of a cell is rounded, the right edge of the last column is
  299.99999999999994, and the point \<open>(300 - 2 ^ -45, 0)\<close> of the canvas lies in no cell:
  the cells leave a gap. And the set \<open>activeCells\<close> survives the call: after
  \<open>activateCell 0\<close> and \<open>setGridSize 7\<close> it still holds 0, while cell 0 is inactive.
\<close>

theorem setGridSize_7_leaves_gap:
  "length (cells (setGridSize grid3 7)) = 49 \<and>
   canvasWidth (setGridSize grid3 7) = Num 300 \<and>
   (0::real) \<le> 300 - 1 / 2 ^ 45 \<and> (300 - 1 / 2 ^ 45 :: real) < 300 \<and>
   \<not> (\<exists>k < 49. inCell (cells (setGridSize grid3 7) ! k) (300 - 1 / 2 ^ 45) 0) \<and>
   activeCells (setGridSize (activateCell grid3 0 0) 7) = {0} \<and>
   state (cells (setGridSize (activateCell grid3 0 0) 7) ! 0) = Inactive"
proof -
  have n: "(0::int) < 7" by simp
  have gap: "\<not> (\<exists>k < 49. inCell (cells (setGridSize grid3 7) ! k) (300 - 1 / 2 ^ 45) 0)"
  proof
    assume "\<exists>k < 49. inCell (cells (setGridSize grid3 7) ! k) (300 - 1 / 2 ^ 45) 0"
    then obtain k where k: "k < 49" and i: "inCell (cells (setGridSize grid3 7) ! k) (300 - 1 / 2 ^ 45) 0"
      by blast
    from k have "k < nat (7 * 7)" by simp
    from setGridSize_nth[OF n this, of grid3] i
    have "inCell (freshCell 7 (Num 300) (Num 300) k) (300 - 1 / 2 ^ 45) 0" by simp
    with grid7_gap[OF k] show False by blast
  qed
  have "length (cells grid3) = 9" by (simp add: grid3_def gridManager_length)
  then have a: "activeCells (setGridSize (activateCell grid3 0 0) 7) = {0}"
    by (simp add: activateCell_def) (simp add: grid3_def gridManager_def resize_def calculateCellPositions_def)
  have "(0::nat) < nat (7 * 7)" by simp
  from setGridSize_nth[OF n this, of "activateCell grid3 0 0"]
  have s: "state (cells (setGridSize (activateCell grid3 0 0) 7) ! 0) = Inactive" by simp
  have l: "length (cells (setGridSize grid3 7)) = 49" by simp
  have w: "canvasWidth (setGridSize grid3 7) = Num 300" by simp
  have p: "(0::real) \<le> 300 - 1 / 2 ^ 45" "(300 - 1 / 2 ^ 45 :: real) < 300" by simp_all
  show ?thesis using l w p gap a s by (intro conjI)
qed

text \<open>
  Claim C7 (amended). For all boxes \<open>a\<close> and \<open>b\<close>, \<open>calculateIoU a b\<close> is a number
  that is not negative (never NaN). For valid boxes (finite coordinates, positive width
  and height) whose coordinates are integers up to \<open>2 ^ 25\<close>, where the sums, the
  differences and the products of the code are exact, \<open>calculateIoU a b\<close> is a finite
  number between 0 and 1, and \<open>calculateIoU a a\<close> is 1.
\<close>

theorem calculateIoU_unit_interval:
  "jge (calculateIoU a b) (Num 0) \<and>
   (validBox a \<and> validBox b \<and> integerBox a \<and> integerBox b \<longrightarrow>
      (\<exists>r. calculateIoU a b = Num r \<and> 0 \<le> r \<and> r \<le> 1) \<and> calculateIoU a a = Num 1)"
proof (intro conjI impI)
  show "jge (calculateIoU a b) (Num 0)" by (rule calculateIoU_nonneg)
next
  assume h: "validBox a \<and> validBox b \<and> integerBox a \<and> integerBox b"
  from h obtain x1 y1 w1 h1 where a: "a = (Num x1, Num y1, Num w1, Num h1)"
    and ai: "x1 \<in> \<int>" "y1 \<in> \<int>" "w1 \<in> \<int>" "h1 \<in> \<int>"
    and ar: "\<bar>x1\<bar> \<le> 2 ^ 25" "\<bar>y1\<bar> \<le> 2 ^ 25" "0 \<le> w1" "w1 \<le> 2 ^ 25" "0 \<le> h1" "h1 \<le> 2 ^ 25"
    by (auto elim: integerBoxE)
  from h obtain x2 y2 w2 h2 where b: "b = (Num x2, Num y2, Num w2, Num h2)"
    and bi: "x2 \<in> \<int>" "y2 \<in> \<int>" "w2 \<in> \<int>" "h2 \<in> \<int>"
    and br: "\<bar>x2\<bar> \<le> 2 ^ 25" "\<bar>y2\<bar> \<le> 2 ^ 25" "0 \<le> w2" "w2 \<le> 2 ^ 25" "0 \<le> h2" "h2 \<le> 2 ^ 25"
    by (auto elim: integerBoxE)
  from h have p1: "0 < w1" "0 < h1" and p2: "0 < w2" "0 < h2"
    unfolding a b validBox_def by simp_all
  define iw where "iw = max 0 (min (x1 + w1) (x2 + w2) - max x1 x2)"
  define ih where "ih = max 0 (min (y1 + h1) (y2 + h2) - max y1 y2)"
  have iw: "0 \<le> iw" "iw \<le> w1" "iw \<le> w2" using p1 p2 by (auto simp: iw_def)
  have ih: "0 \<le> ih" "ih \<le> h1" "ih \<le> h2" using p1 p2 by (auto simp: ih_def)
  have i0: "0 \<le> iw * ih" using iw ih by simp
  have i1: "iw * ih \<le> w1 * h1" using iw ih by (intro mult_mono) auto
  have i2: "iw * ih \<le> w2 * h2" using iw ih by (intro mult_mono) auto
  have a2: "0 < w2 * h2" using p2 by simp
  have u: "0 < w1 * h1 + w2 * h2 - iw * ih" using i1 a2 by linarith
  have le: "iw * ih \<le> w1 * h1 + w2 * h2 - iw * ih" using i1 i2 a2 i0 by linarith
  have "calculateIoU a b = rnd (iw * ih / (w1 * h1 + w2 * h2 - iw * ih))"
    unfolding a b calculateIoU_Ints[OF ai bi ar br] Let_def iw_def[symmetric] ih_def[symmetric]
    using u by simp
  moreover have "inUnit (rnd (iw * ih / (w1 * h1 + w2 * h2 - iw * ih)))"
    using i0 u le by (intro rnd_unit) simp_all
  ultimately show "\<exists>r. calculateIoU a b = Num r \<and> 0 \<le> r \<and> r \<le> 1"
    by (auto elim: inUnitE)
  have s: "max 0 (min (x1 + w1) (x1 + w1) - max x1 x1) = w1"
    "max 0 (min (y1 + h1) (y1 + h1) - max y1 y1) = h1"
    using p1 by simp_all
  show "calculateIoU a a = Num 1"
    unfolding a calculateIoU_Ints[OF ai ai ar ar] Let_def s using p1 by simp
qed

theorem calculateIoU_unit_interval_witness:
  "validBox (Num 0, Num 0, Num 2, Num 1) \<and> validBox (Num 1, Num 0, Num 2, Num 1) \<and>
   integerBox (Num 0, Num 0, Num 2, Num 1) \<and> integerBox (Num 1, Num 0, Num 2, Num 1) \<and>
   calculateIoU (Num 0, Num 0, Num 2, Num 1) (Num 1, Num 0, Num 2, Num 1) = lit (1 / 3) \<and>
   inUnit (calculateIoU (Num 0, Num 0, Num 2, Num 1) (Num 1, Num 0, Num 2, Num 1)) \<and>
   calculateIoU (Num 0, Num 0, Num 2, Num 1) (Num 0, Num 0, Num 2, Num 1) = Num 1"
proof -
  have a: "validBox (Num 0, Num 0, Num 2, Num 1)" "integerBox (Num 0, Num 0, Num 2, Num 1)"
    by (simp_all add: validBox_def integerBox_def isInt_def)
  have b: "validBox (Num 1, Num 0, Num 2, Num 1)" "integerBox (Num 1, Num 0, Num 2, Num 1)"
    by (simp_all add: validBox_def integerBox_def isInt_def)
  note t = calculateIoU_unit_interval[of "(Num 0, Num 0, Num 2, Num 1)" "(Num 1, Num 0, Num 2, Num 1)"]
  from t a b have "\<exists>r. calculateIoU (Num 0, Num 0, Num 2, Num 1) (Num 1, Num 0, Num 2, Num 1) = Num r \<and>
      0 \<le> r \<and> r \<le> 1"
    by blast
  then have u: "inUnit (calculateIoU (Num 0, Num 0, Num 2, Num 1) (Num 1, Num 0, Num 2, Num 1))"
    by auto
  from t a b have s: "calculateIoU (Num 0, Num 0, Num 2, Num 1) (Num 0, Num 0, Num 2, Num 1) = Num 1"
    by blast
  show ?thesis using a(1) b(1) a(2) b(2) iou_examples(3) u s by (intro conjI)
qed

text \<open>
  Claim C7 as stated fails on valid boxes whose sums are rounded. The box
  \<open>(0.1, 0.1, 0.2, 0.2)\<close> has the IoU 1.0000000000000004 with itself, which is above
  1: \<open>0.1 + 0.2\<close> is 0.30000000000000004, so that the computed overlap
  \<open>(x + width) - x\<close> is above the width. The box \<open>(2 ^ 53, 0, 3, 1)\<close> has the IoU 2
  with itself.
\<close>

theorem calculateIoU_exceeds_one:
  "validBox (lit (1 / 10), lit (1 / 10), lit (2 / 10), lit (2 / 10)) \<and>
   calculateIoU (lit (1 / 10), lit (1 / 10), lit (2 / 10), lit (2 / 10))
                (lit (1 / 10), lit (1 / 10), lit (2 / 10), lit (2 / 10)) =
     Num (2251799813685249 / 2251799813685248) \<and>
   jgt (calculateIoU (lit (1 / 10), lit (1 / 10), lit (2 / 10), lit (2 / 10))
                     (lit (1 / 10), lit (1 / 10), lit (2 / 10), lit (2 / 10))) (Num 1) \<and>
   validBox (Num 9007199254740992, Num 0, Num 3, Num 1) \<and>
   calculateIoU (Num 9007199254740992, Num 0, Num 3, Num 1)
                (Num 9007199254740992, Num 0, Num 3, Num 1) = Num 2"
proof -
  have v: "validBox (lit (1 / 10), lit (1 / 10), lit (2 / 10), lit (2 / 10))"
    by (simp add: validBox_def lit_def iou_roundings)
  have g: "jgt (calculateIoU (lit (1 / 10), lit (1 / 10), lit (2 / 10), lit (2 / 10))
                     (lit (1 / 10), lit (1 / 10), lit (2 / 10), lit (2 / 10))) (Num 1)"
    unfolding iou_tenths by simp
  have w: "validBox (Num 9007199254740992, Num 0, Num 3, Num 1)" by (simp add: validBox_def)
  show ?thesis using v iou_tenths g w iou_big by (intro conjI)
qed

text \<open>
  Claim C8 (amended). A detection whose box holds a NaN is skipped, alone: it has no
  candidate cell, \<open>mapDetectionToGrid\<close> changes nothing for it, \<open>updateDetections\<close>
  maps the other detections of the list as if it were absent, and its IoU with any box
  is 0. A raw detection whose box is missing is not skipped: when it passes the score
  filter, \<open>formatDetection\<close> raises a TypeError, \<open>processFrame\<close> catches it and gives
  the frame up, so that no detection of the frame reaches the grid. When every raw
  detection that passes the filter has a box, the frame is processed and its detections
  are mapped onto the grid.
\<close>

theorem malformed_detection_handling:
  "(hasNaN (bbox d) \<longrightarrow>
      affectedCells g d = [] \<and> mapDetectionToGrid g d = g \<and>
      cells (updateDetections g (ds1 @ d # ds2)) = cells (updateDetections g (ds1 @ ds2)) \<and>
      calculateIoU (bbox d) b = Num 0 \<and> calculateIoU b (bbox d) = Num 0) \<and>
   (isRunning sim \<and> isModelLoaded sim \<and> r \<in> set raw \<and> rawBbox r = None \<and>
    jge (rawScore r) (confidenceThreshold sim) \<longrightarrow>
      formatDetection r f = Inl TypeError \<and>
      processFrame sim g f (Inr raw) = (sim, g, Some TypeError)) \<and>
   (isRunning sim \<and> isModelLoaded sim \<and>
    (\<forall>r \<in> set raw. jge (rawScore r) (confidenceThreshold sim) \<longrightarrow> rawBbox r \<noteq> None) \<longrightarrow>
      (\<exists>ds. postprocessDetections sim raw f = Inr ds \<and>
            processFrame sim g f (Inr raw) =
              (sim\<lparr>lastDetections := ds\<rparr>, updateDetections g ds, None)))"
proof (intro conjI impI)
  assume n: "hasNaN (bbox d)"
  show "affectedCells g d = []" using n by (rule affectedCells_NaN)
  show "mapDetectionToGrid g d = g" using n by (rule mapDetectionToGrid_NaN)
  show "cells (updateDetections g (ds1 @ d # ds2)) = cells (updateDetections g (ds1 @ ds2))"
    using n by (rule updateDetections_NaN)
  show "calculateIoU (bbox d) b = Num 0" using n by (rule calculateIoU_NaN)
  show "calculateIoU b (bbox d) = Num 0" using n by (rule calculateIoU_NaN)
next
  assume a: "isRunning sim \<and> isModelLoaded sim \<and> r \<in> set raw \<and> rawBbox r = None \<and>
    jge (rawScore r) (confidenceThreshold sim)"
  then show "formatDetection r f = Inl TypeError" by (simp add: formatDetection_missing)
  from a show "processFrame sim g f (Inr raw) = (sim, g, Some TypeError)"
    by (intro processFrame_missing[of sim r]) simp_all
next
  assume a: "isRunning sim \<and> isModelLoaded sim \<and>
    (\<forall>r \<in> set raw. jge (rawScore r) (confidenceThreshold sim) \<longrightarrow> rawBbox r \<noteq> None)"
  then show "\<exists>ds. postprocessDetections sim raw f = Inr ds \<and>
            processFrame sim g f (Inr raw) =
              (sim\<lparr>lastDetections := ds\<rparr>, updateDetections g ds, None)"
    by (intro processFrame_present) simp_all
qed

theorem malformed_detection_handling_witness:
  "hasNaN (bbox ((person (8 / 10) 0 0 10 10)\<lparr>bbox := (NaN, Num 0, Num 10, Num 10)\<rparr>)) \<and>
   cells (updateDetections grid3
     ([person (9 / 10) 50 50 80 80] @
      (person (8 / 10) 0 0 10 10)\<lparr>bbox := (NaN, Num 0, Num 10, Num 10)\<rparr> # [])) =
   cells (updateDetections grid3 ([person (9 / 10) 50 50 80 80] @ [])) \<and>
   processFrame defaultSimulation grid3 frame300
     (Inr [rawPerson (9 / 10) (Some [Num 50, Num 50, Num 80, Num 80]), rawPerson (8 / 10) None]) =
   (defaultSimulation, grid3, Some TypeError)"
proof -
  let ?d = "(person (8 / 10) 0 0 10 10)\<lparr>bbox := (NaN, Num 0, Num 10, Num 10)\<rparr>"
  let ?raw = "[rawPerson (9 / 10) (Some [Num 50, Num 50, Num 80, Num 80]), rawPerson (8 / 10) None]"
  note t = malformed_detection_handling[of ?d grid3 "[person (9 / 10) 50 50 80 80]" "[]"
      "(Num 0, Num 0, Num 1, Num 1)" defaultSimulation "rawPerson (8 / 10) None" ?raw frame300]
  have n: "hasNaN (bbox ?d)" by (simp add: hasNaN_def)
  have s: "jge (lit (8 / 10)) (lit (3 / 10))"
    by (simp add: lit_eight_tenths lit_three_tenths)
  have h: "isRunning defaultSimulation \<and> isModelLoaded defaultSimulation \<and>
      rawPerson (8 / 10) None \<in> set ?raw \<and> rawBbox (rawPerson (8 / 10) None) = None \<and>
      jge (rawScore (rawPerson (8 / 10) None)) (confidenceThreshold defaultSimulation)"
    using s by (simp add: rawPerson_def defaultSimulation_def)
  from t n have 1: "cells (updateDetections grid3 ([person (9 / 10) 50 50 80 80] @ ?d # [])) =
      cells (updateDetections grid3 ([person (9 / 10) 50 50 80 80] @ []))"
    by blast
  from t h have 2: "processFrame defaultSimulation grid3 frame300 (Inr ?raw) =
      (defaultSimulation, grid3, Some TypeError)"
    by blast
  from n 1 2 show ?thesis by (intro conjI)
qed

text \<open>
  Claim C8 as stated fails for a missing box. The frame with the raw detections
  (score 0.9, box \<open>(50, 50, 80, 80)\<close>) and (score 0.8, no box) is given up with a
  TypeError and the grid is as before, with confidence 0 at cell 0; the first detection
  alone would have been mapped, with confidence 0.225 at cell 0.
\<close>

theorem missing_box_aborts_frame:
  "processFrame defaultSimulation grid3 frame300
     (Inr [rawPerson (9 / 10) (Some [Num 50, Num 50, Num 80, Num 80]), rawPerson (8 / 10) None]) =
   (defaultSimulation, grid3, Some TypeError) \<and>
   confidence (cells grid3 ! 0) = Num 0 \<and>
   confidence (cells (fst (snd (processFrame defaultSimulation grid3 frame300
     (Inr [rawPerson (9 / 10) (Some [Num 50, Num 50, Num 80, Num 80])])))) ! 0) = lit (9 / 40)"
proof -
  have c: "confidence (cells (updateDetections grid3 [person (9 / 10) 50 50 80 80]) ! 0) = lit (9 / 40)"
    using scenario_cell0[of "[]" 0] by (simp add: activateCells_def)
  have z: "confidence (cells grid3 ! 0) = Num 0" by (simp add: grid3_nth)
  have p: "confidence (cells (fst (snd (processFrame defaultSimulation grid3 frame300
     (Inr [rawPerson (9 / 10) (Some [Num 50, Num 50, Num 80, Num 80])])))) ! 0) = lit (9 / 40)"
    unfolding processFrame_good using c by simp
  show ?thesis using processFrame_bad[of grid3] z p by (intro conjI)
qed

text \<open>
  Claim C9. \<open>updateDetections\<close> maps the detections onto an \<open>inactive\<close> cell as onto
  any other cell, but its reset step skips that cell. So an inactive cell with
  confidence 0 that is a candidate of a detection with an adjusted confidence above 0 and
  at most 0.1 (the test \<open>adjustedConfidence > 0.1\<close> of the code fails) is still
  \<open>inactive\<close> after the call, and holds that confidence and the detection as owner.
\<close>

theorem inactive_cell_keeps_low_confidence:
  assumes "k < length (cells g)"
  shows "cells (updateDetections g ds) ! k =
           cellRun g k ds
             (if state (cells g ! k) = Inactive then cells g ! k
              else (cells g ! k)\<lparr>state := Active, confidence := Num 0, detection := None\<rparr>) \<and>
         (state (cells g ! k) = Inactive \<and> confidence (cells g ! k) = Num 0 \<and>
          k \<in> set (affectedCells g d) \<and>
          adjustedConfidence (cells g ! k) d = Num a \<and> 0 < a \<and> jle (Num a) (lit (1 / 10)) \<longrightarrow>
            state (cells (updateDetections g [d]) ! k) = Inactive \<and>
            confidence (cells (updateDetections g [d]) ! k) = Num a \<and>
            detection (cells (updateDetections g [d]) ! k) = Some d)"
proof
  show "cells (updateDetections g ds) ! k =
           cellRun g k ds
             (if state (cells g ! k) = Inactive then cells g ! k
              else (cells g ! k)\<lparr>state := Active, confidence := Num 0, detection := None\<rparr>)"
    unfolding updateDetections_nth[OF assms] by (simp add: resetCell_def)
  show "state (cells g ! k) = Inactive \<and> confidence (cells g ! k) = Num 0 \<and>
          k \<in> set (affectedCells g d) \<and>
          adjustedConfidence (cells g ! k) d = Num a \<and> 0 < a \<and> jle (Num a) (lit (1 / 10)) \<longrightarrow>
            state (cells (updateDetections g [d]) ! k) = Inactive \<and>
            confidence (cells (updateDetections g [d]) ! k) = Num a \<and>
            detection (cells (updateDetections g [d]) ! k) = Some d"
    using inactive_keeps_low_detection[OF assms, of d a] by blast
qed

theorem inactive_cell_keeps_low_confidence_witness:
  "0 < length (cells grid3) \<and>
   state (cells (updateDetections grid3 [person (9 / 10) 0 0 30 30]) ! 0) = Inactive \<and>
   confidence (cells (updateDetections grid3 [person (9 / 10) 0 0 30 30]) ! 0) = lit (81 / 1000) \<and>
   jgt (lit (81 / 1000)) (Num 0) \<and>
   detection (cells (updateDetections grid3 [person (9 / 10) 0 0 30 30]) ! 0) =
     Some (person (9 / 10) 0 0 30 30)"
proof -
  define a :: real where "a = 5836665117072163 / 72057594037927936"
  have l: "lit (81 / 1000) = Num a" unfolding a_def lit_def by (rule adjusted_roundings)
  have p: "0 < a" by (simp add: a_def)
  have k: "0 < length (cells grid3)" by simp
  have h: "state (cells grid3 ! 0) = Inactive \<and> confidence (cells grid3 ! 0) = Num 0 \<and>
      0 \<in> set (affectedCells grid3 (person (9 / 10) 0 0 30 30)) \<and>
      adjustedConfidence (cells grid3 ! 0) (person (9 / 10) 0 0 30 30) = Num a \<and>
      0 < a \<and> jle (Num a) (lit (1 / 10))"
    using grid3_low example_orders(7) p unfolding l by (intro conjI)
  from inactive_cell_keeps_low_confidence[OF k, of "[]" "person (9 / 10) 0 0 30 30" a] h
  have r: "state (cells (updateDetections grid3 [person (9 / 10) 0 0 30 30]) ! 0) = Inactive \<and>
   confidence (cells (updateDetections grid3 [person (9 / 10) 0 0 30 30]) ! 0) = Num a \<and>
   detection (cells (updateDetections grid3 [person (9 / 10) 0 0 30 30]) ! 0) =
     Some (person (9 / 10) 0 0 30 30)"
    by blast
  show ?thesis using k r example_orders(5) unfolding l by (intro conjI) simp_all
qed




end
